theory Spec2Isabelle
  imports Complex_Main "HOL-Library.Sublist" "HOL-Library.Word"
begin

section \<open>C floats\<close>

text \<open>
  The costs of the code are C \<open>float\<close>s (\<open>clause_struct.totcost\<close>, \<open>cost_cutoff\<close>).  A
  \<open>float\<close> is taken as an IEEE 754 binary32 number, and \<open>+\<close> as the addition that rounds
  its exact result to the nearest \<open>float\<close>, ties to even (the default rounding mode,
  each operation rounded to \<open>float\<close>).  A finite number is its sign (\<open>True\<close> for minus)
  and its magnitude, a rational number; the two zeros are kept apart; the payload of a
  NaN is not modelled.
\<close>

datatype cfloat = Finite bool rat | Infinity bool | NaN

text \<open>\<open>log2n n\<close> is the integer part of the binary logarithm of \<open>n \<ge> 1\<close>, \<open>ilog2 a\<close>
  that of a rational \<open>a > 0\<close>, and \<open>pow2 i\<close> is 2 to the power \<open>i\<close>.\<close>

function log2n :: "int \<Rightarrow> int" where
  "log2n n = (if n < 2 then 0 else 1 + log2n (n div 2))"
  by pat_completeness auto

termination
  by (relation "measure nat") auto

definition pow2 :: "int \<Rightarrow> rat" where
  "pow2 i = (if 0 \<le> i then 2 ^ nat i else 1 / 2 ^ nat (- i))"

definition ilog2 :: "rat \<Rightarrow> int" where
  "ilog2 a =
     (if 1 \<le> a then log2n \<lfloor>a\<rfloor>
      else (let b = 1 / a; k = log2n \<lfloor>b\<rfloor>
            in if b = pow2 k then - k else - k - 1))"

text \<open>The nearest integer, the even one of two that are equally near.\<close>

definition round_even :: "rat \<Rightarrow> int" where
  "round_even q =
     (let f = \<lfloor>q\<rfloor>; r = q - of_int f
      in if r < 1 / 2 then f else if 1 / 2 < r then f + 1 else if even f then f else f + 1)"

text \<open>
  Rounding a sign and a magnitude to binary32: 24 bits of precision, the least
  exponent \<open>- 126\<close> (below it the numbers are subnormal, multiples of \<open>2\<^sup>-\<^sup>1\<^sup>4\<^sup>9\<close>), and
  infinity once the rounded magnitude reaches \<open>2\<^sup>1\<^sup>2\<^sup>8\<close>.
\<close>

definition round32 :: "bool \<Rightarrow> rat \<Rightarrow> cfloat" where
  "round32 s a =
     (if a = 0 then Finite s 0
      else (let e = max (ilog2 a) (- 126);
                ulp = pow2 (e - 23);
                m = of_int (round_even (a / ulp)) * ulp
            in if pow2 128 \<le> m then Infinity s else Finite s m))"

text \<open>The \<open>float\<close> a constant of the program text or of the dictionary stands for.\<close>

definition flt :: "rat \<Rightarrow> cfloat" where
  "flt x = round32 (x < 0) \<bar>x\<bar>"

text \<open>\<open>x + y\<close> on \<open>float\<close>s.  An exact sum of zero is \<open>- 0\<close> only when both operands
  are.\<close>

fun fadd :: "cfloat \<Rightarrow> cfloat \<Rightarrow> cfloat" where
  "fadd NaN y = NaN"
| "fadd x NaN = NaN"
| "fadd (Infinity s) (Infinity t) = (if s = t then Infinity s else NaN)"
| "fadd (Infinity s) (Finite t b) = Infinity s"
| "fadd (Finite s a) (Infinity t) = Infinity t"
| "fadd (Finite s a) (Finite t b) =
     (let x = (if s then - a else a) + (if t then - b else b)
      in if x = 0 then Finite (s \<and> t) 0 else round32 (x < 0) \<bar>x\<bar>)"

text \<open>\<open>x > y\<close> on \<open>float\<close>s: false when either is a NaN.\<close>

fun fgt :: "cfloat \<Rightarrow> cfloat \<Rightarrow> bool" where
  "fgt NaN y = False"
| "fgt x NaN = False"
| "fgt (Infinity s) (Infinity t) = (\<not> s \<and> t)"
| "fgt (Infinity s) (Finite t b) = (\<not> s)"
| "fgt (Finite s a) (Infinity t) = t"
| "fgt (Finite s a) (Finite t b) = ((if t then - b else b) < (if s then - a else a))"

text \<open>The constant \<open>0.0\<close>.\<close>

instantiation cfloat :: zero
begin

definition zero_cfloat :: cfloat where
  "zero_cfloat = Finite False 0"

instance ..

end

section \<open>Expression trees (dict-structures, as used by build-disjuncts.c)\<close>

text \<open>
  An \<open>Exp\<close> node carries its type tag, its cost, the position id written by
  \<open>build_terminal\<close>, and, for a connector, direction, multi flag, descriptor and
  farthest-word bound.  The \<open>operand_first\<close>/\<open>operand_next\<close> chain of an AND or OR
  node is the list \<open>e_operands\<close>.  A tag outside the three known ones is kept as
  \<open>Unknown_type\<close>: \<open>build_clause\<close> and \<open>count_clause\<close> end in an assertion for it.
  The declaration of \<open>Exp\<close> is not in the sources at hand; the cost of a node is
  taken to be a \<open>float\<close>, like the total it is added to.
\<close>

datatype Exp_type = OR_type | AND_type | CONNECTOR_type | Unknown_type int

datatype Exp = Exp_struct (e_type: Exp_type) (e_cost: cfloat) (e_pos: int) (e_dir: char)
  (e_multi: bool) (e_condesc: nat) (e_farthest_word: nat) (e_operands: "Exp list")

text \<open>
  Failures of the C code: the two assertions of \<open>build_clause\<close>, the assertion of
  \<open>build_disjunct\<close> on the category number, the assertion of \<open>tracon_set_add\<close>, and the
  two ways the OR loop of \<open>build_clause\<close> would misuse \<open>or_last\<close> were an operand ever to
  yield no clause.
\<close>

datatype error = Assert_null_parameter | Assert_unknown_type int
  | Null_dereference | Uninitialized_last | Assert_insane_category int | Assert_null_list

section \<open>Temporary connectors and clauses (build-disjuncts.c)\<close>

text \<open>
  A \<open>Tconnector\<close> cell is identified by the address \<open>pool_alloc\<close> returned for it
  (\<open>t_addr\<close>); the pool is a bump allocator, so the address is the number of cells
  handed out before.  Its \<open>next\<close> link is never changed once the cell is linked, so
  a chain of cells is a list; two lists that hold a cell of the same address share
  that cell (and everything behind it).  \<open>t_e\<close> is the node the \<open>e\<close> pointer refers
  to, \<open>t_tracon\<close> the value of the \<open>tracon\<close> field when the cell was written.
\<close>

record Tconnector =
  t_addr :: nat
  t_e :: Exp
  t_tracon :: "nat option"

record Clause =
  cl_c :: "Tconnector list"
  cl_totcost :: cfloat

record clause_context =
  Tconnector_pool :: nat
  cost_cutoff :: cfloat
  exp_pos :: int

text \<open>\<open>catenate\<close>: every cell of \<open>e1\<close> is copied into a fresh cell, \<open>e2\<close> is linked
  behind the last copy by reference.\<close>

fun catenate :: "Tconnector list \<Rightarrow> Tconnector list \<Rightarrow> nat \<Rightarrow> Tconnector list \<times> nat" where
  "catenate [] e2 tp = (e2, tp)"
| "catenate (e1 # rest) e2 tp =
     (let newe = e1\<lparr>t_addr := tp\<rparr>;
          (tl, tp') = catenate rest e2 (Suc tp)
      in (newe # tl, tp'))"

text \<open>\<open>build_terminal\<close> writes the position counter into the node: the node it
  returns is the node as it is in memory afterwards.\<close>

definition build_terminal :: "Exp \<Rightarrow> clause_context \<Rightarrow> Exp \<times> Tconnector \<times> clause_context" where
  "build_terminal e ct =
     (case e of Exp_struct ty co p d m cd fw ops \<Rightarrow>
        let e' = Exp_struct ty co (exp_pos ct) d m cd fw ops;
            c = \<lparr>t_addr = Tconnector_pool ct, t_e = e', t_tracon = None\<rparr>
        in (e', c, ct\<lparr>Tconnector_pool := Suc (Tconnector_pool ct), exp_pos := exp_pos ct + 1\<rparr>))"

text \<open>The two nested loops of the AND case (\<open>c3\<close> over the product so far, \<open>c4\<close>
  over the clauses of the operand); every new clause \<open>c5\<close> is put in front of
  \<open>c_head\<close>.  \<open>c5->totcost = c3->totcost + c4->totcost\<close> is a \<open>float\<close> addition.\<close>

fun product_inner :: "Clause \<Rightarrow> Clause list \<Rightarrow> Clause list \<Rightarrow> nat \<Rightarrow> Clause list \<times> nat" where
  "product_inner c3 [] c_head tp = (c_head, tp)"
| "product_inner c3 (c4 # rest) c_head tp =
     (let (l, tp') = catenate (cl_c c4) (cl_c c3) tp;
          c5 = \<lparr>cl_c = l, cl_totcost = fadd (cl_totcost c3) (cl_totcost c4)\<rparr>
      in product_inner c3 rest (c5 # c_head) tp')"

fun product_outer :: "Clause list \<Rightarrow> Clause list \<Rightarrow> Clause list \<Rightarrow> nat \<Rightarrow> Clause list \<times> nat" where
  "product_outer [] c2 c_head tp = (c_head, tp)"
| "product_outer (c3 # rest) c2 c_head tp =
     (let (h, tp') = product_inner c3 c2 c_head tp
      in product_outer rest c2 h tp')"

text \<open>\<open>c1->totcost += e->cost\<close> for every clause of the list.\<close>

definition add_cost :: "cfloat \<Rightarrow> Clause list \<Rightarrow> Clause list" where
  "add_cost x c = map (\<lambda>c1. c1\<lparr>cl_totcost := fadd (cl_totcost c1) x\<rparr>) c"

text \<open>
  \<open>build_clause\<close> returns the node as it is in memory after the call, the clause
  list and the context.  The argument is a pointer: \<open>None\<close> is \<open>NULL\<close>, which is
  what \<open>e->operand_first\<close> is for an OR node without operands.  \<open>build_AND\<close> and
  \<open>build_OR\<close> are the operand loops of the two cases.  The out-parameter \<open>c_last\<close>
  receives the last clause of a non-empty result (the first \<open>c5\<close> of the last
  product, the single clause of a connector or of an AND without operands,
  \<open>or_last\<close>), so that \<open>or_last->next = ...\<close> appends; when the list so far is
  empty \<open>or_last\<close> is \<open>NULL\<close>, and when an operand yields no clause \<open>last\<close> is
  never written: both are failures here.
\<close>

fun build_clause :: "Exp option \<Rightarrow> clause_context \<Rightarrow> error + (Exp \<times> Clause list \<times> clause_context)"
and build_AND :: "Exp list \<Rightarrow> Clause list \<Rightarrow> clause_context \<Rightarrow> error + (Exp list \<times> Clause list \<times> clause_context)"
and build_OR :: "Exp list \<Rightarrow> Clause list \<Rightarrow> clause_context \<Rightarrow> error + (Exp list \<times> Clause list \<times> clause_context)"
where
  "build_clause None ct = Inl Assert_null_parameter"
| "build_clause (Some (Exp_struct AND_type co p d m cd fw ops)) ct =
     (case build_AND ops [\<lparr>cl_c = [], cl_totcost = 0\<rparr>] ct of
        Inl err \<Rightarrow> Inl err
      | Inr (ops', c, ct') \<Rightarrow> Inr (Exp_struct AND_type co p d m cd fw ops', add_cost co c, ct'))"
| "build_clause (Some (Exp_struct OR_type co p d m cd fw [])) ct = build_clause None ct"
| "build_clause (Some (Exp_struct OR_type co p d m cd fw (operand_first # rest))) ct =
     (case build_clause (Some operand_first) ct of
        Inl err \<Rightarrow> Inl err
      | Inr (operand_first', c, ct1) \<Rightarrow>
          (case build_OR rest c ct1 of
             Inl err \<Rightarrow> Inl err
           | Inr (rest', c', ct2) \<Rightarrow>
               Inr (Exp_struct OR_type co p d m cd fw (operand_first' # rest'), add_cost co c', ct2)))"
| "build_clause (Some (Exp_struct CONNECTOR_type co p d m cd fw ops)) ct =
     (let (e', t, ct') = build_terminal (Exp_struct CONNECTOR_type co p d m cd fw ops) ct
      in Inr (e', [\<lparr>cl_c = [t], cl_totcost = co\<rparr>], ct'))"
| "build_clause (Some (Exp_struct (Unknown_type n) co p d m cd fw ops)) ct =
     Inl (Assert_unknown_type n)"
| "build_AND [] c ct = Inr ([], c, ct)"
| "build_AND (opd # rest) c ct =
     (case build_clause (Some opd) ct of
        Inl err \<Rightarrow> Inl err
      | Inr (opd', c2, ct1) \<Rightarrow>
          (let (c_head, tp) = product_outer c c2 [] (Tconnector_pool ct1)
           in case build_AND rest c_head (ct1\<lparr>Tconnector_pool := tp\<rparr>) of
                Inl err \<Rightarrow> Inl err
              | Inr (rest', c', ct2) \<Rightarrow> Inr (opd' # rest', c', ct2)))"
| "build_OR [] c ct = Inr ([], c, ct)"
| "build_OR (opd # rest) c ct =
     (case build_clause (Some opd) ct of
        Inl err \<Rightarrow> Inl err
      | Inr (opd', c2, ct1) \<Rightarrow>
          if c = [] then Inl Null_dereference
          else if c2 = [] then Inl Uninitialized_last
          else (case build_OR rest (c @ c2) ct1 of
                  Inl err \<Rightarrow> Inl err
                | Inr (rest', c', ct2) \<Rightarrow> Inr (opd' # rest', c', ct2)))"

section \<open>Counting clauses\<close>

text \<open>The count of the specification: 1 for a connector, the product over the
  operands of an AND node (1 for none), the sum over the operands of an OR node.\<close>

fun N :: "Exp \<Rightarrow> nat" where
  "N (Exp_struct ty co p d m cd fw ops) =
     (case ty of
        CONNECTOR_type \<Rightarrow> 1
      | AND_type \<Rightarrow> prod_list (map N ops)
      | OR_type \<Rightarrow> sum_list (map N ops)
      | Unknown_type n \<Rightarrow> 0)"

text \<open>Every node of the tree is an AND, OR or CONNECTOR node (the operand field of
  a connector is not part of the tree).\<close>

fun known_types :: "Exp \<Rightarrow> bool" where
  "known_types (Exp_struct ty co p d m cd fw ops) =
     (case ty of
        CONNECTOR_type \<Rightarrow> True
      | AND_type \<Rightarrow> list_all known_types ops
      | OR_type \<Rightarrow> list_all known_types ops
      | Unknown_type n \<Rightarrow> False)"

text \<open>Every OR node of the tree has an operand.\<close>

fun or_nonempty :: "Exp \<Rightarrow> bool" where
  "or_nonempty (Exp_struct ty co p d m cd fw ops) =
     (case ty of
        CONNECTOR_type \<Rightarrow> True
      | AND_type \<Rightarrow> list_all or_nonempty ops
      | OR_type \<Rightarrow> ops \<noteq> [] \<and> list_all or_nonempty ops
      | Unknown_type n \<Rightarrow> True)"

text \<open>Some OR node of the tree has no operand.\<close>

fun has_empty_OR :: "Exp \<Rightarrow> bool" where
  "has_empty_OR (Exp_struct ty co p d m cd fw ops) =
     (case ty of
        CONNECTOR_type \<Rightarrow> False
      | AND_type \<Rightarrow> list_ex has_empty_OR ops
      | OR_type \<Rightarrow> ops = [] \<or> list_ex has_empty_OR ops
      | Unknown_type n \<Rightarrow> False)"

section \<open>Sample expressions\<close>

definition connector_exp :: "nat \<Rightarrow> char \<Rightarrow> cfloat \<Rightarrow> Exp" where
  "connector_exp cd d co = Exp_struct CONNECTOR_type co 0 d False cd 0 []"

definition and_exp :: "cfloat \<Rightarrow> Exp list \<Rightarrow> Exp" where
  "and_exp co ops = Exp_struct AND_type co 0 (CHR 0x00) False 0 0 ops"

definition or_exp :: "cfloat \<Rightarrow> Exp list \<Rightarrow> Exp" where
  "or_exp co ops = Exp_struct OR_type co 0 (CHR 0x00) False 0 0 ops"

definition context0 :: "cfloat \<Rightarrow> clause_context" where
  "context0 cutoff = \<lparr>Tconnector_pool = 0, cost_cutoff = cutoff, exp_pos = 0\<rparr>"

text \<open>\<open>Z+ & {X+}\<close>, that is \<open>Z+ & (() or X+)\<close>.\<close>

definition exp_Z_opt_X :: Exp where
  "exp_Z_opt_X =
     and_exp 0 [connector_exp 1 (CHR ''+'') 0,
                or_exp 0 [and_exp 0 [], connector_exp 2 (CHR ''+'') 0] ]"

section \<open>The tree seen by a clause\<close>

text \<open>The CONNECTOR nodes of a tree, from left to right.\<close>

fun leaves :: "Exp \<Rightarrow> Exp list" where
  "leaves (Exp_struct ty co p d m cd fw ops) =
     (case ty of
        CONNECTOR_type \<Rightarrow> [Exp_struct ty co p d m cd fw ops]
      | AND_type \<Rightarrow> concat (map leaves ops)
      | OR_type \<Rightarrow> concat (map leaves ops)
      | Unknown_type n \<Rightarrow> [])"

text \<open>The tree with the \<open>pos\<close> field of every CONNECTOR node blanked: two trees
  with the same image differ in nothing but those fields.\<close>

fun clear_pos :: "Exp \<Rightarrow> Exp" where
  "clear_pos (Exp_struct ty co p d m cd fw ops) =
     (case ty of
        CONNECTOR_type \<Rightarrow> Exp_struct ty co 0 d m cd fw ops
      | AND_type \<Rightarrow> Exp_struct ty co p d m cd fw (map clear_pos ops)
      | OR_type \<Rightarrow> Exp_struct ty co p d m cd fw (map clear_pos ops)
      | Unknown_type n \<Rightarrow> Exp_struct ty co p d m cd fw ops)"

text \<open>The nodes of a list carry the consecutive position ids \<open>p\<close>, \<open>p + 1\<close>, ...\<close>

fun numbered :: "int \<Rightarrow> Exp list \<Rightarrow> bool" where
  "numbered p [] = True"
| "numbered p (e # es) = (e_pos e = p \<and> numbered (p + 1) es)"

text \<open>
  The selections of a tree, in the words of the specification: a selection takes
  the node itself, for an AND node a selection of every operand, for an OR node a
  selection of one operand.  A selection is the list of the nodes it takes (the
  nodes that contribute to one clause), each once, in prefix order.  It comes with
  its total: the cost of a connector; for an AND node the totals of the operands'
  selections added from left to right, starting from \<open>0.0\<close>, and then the cost of the
  node; for an OR node the total of the operand's selection and then the cost of the
  node.  Every addition is a \<open>float\<close> addition; \<open>selections_AND k\<close> starts from the
  total \<open>k\<close>.
\<close>

fun selections :: "Exp \<Rightarrow> (Exp list \<times> cfloat) list"
and selections_AND :: "cfloat \<Rightarrow> Exp list \<Rightarrow> (Exp list \<times> cfloat) list"
and selections_OR :: "Exp list \<Rightarrow> (Exp list \<times> cfloat) list"
where
  "selections (Exp_struct ty co p d m cd fw ops) =
     (case ty of
        CONNECTOR_type \<Rightarrow> [([Exp_struct ty co p d m cd fw ops], co)]
      | AND_type \<Rightarrow> map (\<lambda>(sel, k). (Exp_struct ty co p d m cd fw ops # sel, fadd k co))
                      (selections_AND 0 ops)
      | OR_type \<Rightarrow> map (\<lambda>(sel, k). (Exp_struct ty co p d m cd fw ops # sel, fadd k co))
                     (selections_OR ops)
      | Unknown_type n \<Rightarrow> [])"
| "selections_AND k [] = [([], k)]"
| "selections_AND k (opd # rest) =
     concat (map (\<lambda>(x, kx). map (\<lambda>(y, ky). (x @ y, ky)) (selections_AND (fadd k kx) rest))
       (selections opd))"
| "selections_OR [] = []"
| "selections_OR (opd # rest) = selections opd @ selections_OR rest"

definition is_connector :: "Exp \<Rightarrow> bool" where
  "is_connector e = (e_type e = CONNECTOR_type)"

text \<open>The nodes the cells of a clause point to, in the order of the cells.\<close>

definition clause_exps :: "Clause \<Rightarrow> Exp list" where
  "clause_exps cl = map t_e (cl_c cl)"

text \<open>\<open>A- & B+\<close>.\<close>

definition exp_A_and_B :: Exp where
  "exp_A_and_B = and_exp 0 [connector_exp 1 (CHR ''-'') 0, connector_exp 2 (CHR ''+'') 0]"

text \<open>A clause and a selection agree: the clause's cost is the total of the
  selection, and its cells point to the selection's connectors, last one first.\<close>

definition agrees :: "Clause \<Rightarrow> Exp list \<times> cfloat \<Rightarrow> bool" where
  "agrees cl sk \<longleftrightarrow>
     cl_totcost cl = snd sk \<and>
     rev (clause_exps cl) = filter is_connector (fst sk)"

text \<open>The expression \<open>A- & (B+ or C+)\<close> with costs 1 on the AND node, 1/2 on \<open>A-\<close>, 2 on the OR
  node, 1/4 on \<open>B+\<close> and 4 on \<open>C+\<close>.\<close>

definition exp_with_costs :: Exp where
  "exp_with_costs =
     and_exp (flt 1) [connector_exp 1 (CHR ''-'') (flt (1/2)),
                or_exp (flt 2) [connector_exp 2 (CHR ''+'') (flt (1/4)),
                                connector_exp 3 (CHR ''+'') (flt 4)] ]"

text \<open>The expression \<open>[A+]\<close>: an AND node of cost 1 around the connector \<open>A+\<close> of cost
  16777216, which is \<open>2\<^sup>2\<^sup>4\<close>.\<close>

definition exp_absorbed :: Exp where
  "exp_absorbed = and_exp (flt 1) [connector_exp 1 (CHR ''+'') (flt 16777216)]"

section \<open>Connectors and disjuncts (build-disjuncts.c, preparation.c)\<close>

text \<open>
  The declarations of \<open>Connector\<close> and \<open>Disjunct\<close> are not part of the sources at
  hand; the records hold the fields the code reads and writes.  A connector is a
  cell of the sentence's connector pool and is known by its address; \<open>None\<close> is
  the null pointer.  \<open>nearest_word\<close> is an \<open>int\<close>, the type \<open>set_dist_fields\<close> returns
  and compares with 0.  Descriptors and word-graph sets are opaque addresses.
\<close>

record Connector =
  c_desc :: nat
  c_multi :: bool
  c_exp_pos :: int
  c_farthest_word :: nat
  c_nearest_word :: int
  c_shallow :: bool
  c_next :: "nat option"
  c_originating_gword :: nat

record Category_cost =
  cat_num :: nat
  cat_cost :: cfloat

record Disjunct =
  d_left :: "nat option"
  d_right :: "nat option"
  d_word_string :: string
  d_cost :: cfloat
  d_is_category :: nat
  d_num_categories_alloced :: nat
  d_num_categories :: nat
  d_category :: "Category_cost list"
  d_originating_gword :: nat

text \<open>
  Modelled from the spec: the pool allocator (memory-pool.c) and \<open>connector_new\<close>
  (connectors.c) are not part of the sources at hand.  A pool hands out the cells
  0, 1, 2, ... and never moves them; the connector pool is created with
  \<open>zero_out = true\<close> (\<open>build_sentence_disjuncts\<close>), so a new connector is all zero
  but for the descriptor \<open>connector_new\<close> stores.
\<close>

definition zero_connector :: Connector where
  "zero_connector = \<lparr>c_desc = 0, c_multi = False, c_exp_pos = 0, c_farthest_word = 0,
     c_nearest_word = 0, c_shallow = False, c_next = None, c_originating_gword = 0\<rparr>"

text \<open>
  The state \<open>build_disjunct\<close> works on: the connector pool (cells and number of
  cells handed out), the number of disjunct cells handed out, the \<open>tracon\<close> fields
  written so far (by the address of the \<open>Tconnector\<close> cell), and, for the clause
  at hand, \<open>ndis->left\<close>, \<open>ndis->right\<close>, \<open>jet\<close> and \<open>is_tracon\<close> (index \<open>False\<close> is 0,
  the left direction).  A \<open>jet\<close> points at the field of the disjunct or at the \<open>next\<close>
  field of a connector.
\<close>

datatype jet = Dis_field | Next_field nat

record bd_state =
  bd_connectors :: "nat \<Rightarrow> Connector"
  bd_connectors_used :: nat
  bd_disjuncts_used :: nat
  bd_tracon :: "nat \<Rightarrow> nat option"
  bd_left :: "nat option"
  bd_right :: "nat option"
  bd_jet :: "bool \<Rightarrow> jet"
  bd_is_tracon :: "bool \<Rightarrow> bool"

text \<open>\<open>*(jet[idir]) = v\<close>.\<close>

definition store_jet :: "bool \<Rightarrow> nat option \<Rightarrow> bd_state \<Rightarrow> bd_state" where
  "store_jet idir v st =
     (case bd_jet st idir of
        Dis_field \<Rightarrow> (if idir then st\<lparr>bd_right := v\<rparr> else st\<lparr>bd_left := v\<rparr>)
      | Next_field n \<Rightarrow>
          st\<lparr>bd_connectors := (bd_connectors st)(n := (bd_connectors st n)\<lparr>c_next := v\<rparr>)\<rparr>)"

text \<open>\<open>t->tracon\<close>: the value written during this call, else the value the cell was
  created with.\<close>

definition tracon_of :: "bd_state \<Rightarrow> Tconnector \<Rightarrow> nat option" where
  "tracon_of st t = (case bd_tracon st (t_addr t) of Some n \<Rightarrow> Some n | None \<Rightarrow> t_tracon t)"

text \<open>The loop over the cells of one clause.\<close>

fun build_chains :: "Tconnector list \<Rightarrow> bd_state \<Rightarrow> bd_state" where
  "build_chains [] st = st"
| "build_chains (t # rest) st =
     (let idir = (e_dir (t_e t) = CHR ''+'') in
      if bd_is_tracon st idir then build_chains rest st
      else
        (case tracon_of st t of
           Some n \<Rightarrow>
             build_chains rest
               ((store_jet idir (Some n) st)\<lparr>bd_is_tracon := (bd_is_tracon st)(idir := True)\<rparr>)
         | None \<Rightarrow>
             (let n = bd_connectors_used st;
                  st1 = st\<lparr>bd_connectors :=
                             (bd_connectors st)(n := zero_connector\<lparr>c_desc := e_condesc (t_e t)\<rparr>),
                           bd_connectors_used := Suc n\<rparr>;
                  st2 = st1\<lparr>bd_tracon := (bd_tracon st1)(t_addr t := Some n)\<rparr>;
                  st3 = st2\<lparr>bd_connectors :=
                              (bd_connectors st2)(n := (bd_connectors st2 n)
                                 \<lparr>c_exp_pos := e_pos (t_e t), c_multi := e_multi (t_e t),
                                  c_farthest_word := e_farthest_word (t_e t)\<rparr>)\<rparr>;
                  st4 = store_jet idir (Some n) st3
              in build_chains rest (st4\<lparr>bd_jet := (bd_jet st4)(idir := Next_field n)\<rparr>))))"

text \<open>
  What \<open>build_disjunct\<close> is given besides the clause list: the C library's
  \<open>strtol(\<cdot>, NULL, 16)\<close>, whether the SAT solver owns the sentence (false unless
  compiled in and asked for), \<open>IS_GENERATION(sent->dict)\<close>, the word string, the
  word-graph set, the cutoff, and the contents of the memory it gets from
  \<open>pool_alloc\<close> (the disjunct pool is created with \<open>zero_out = false\<close>) and \<open>malloc\<close>:
  the disjunct cell, and the four category cells by their index, as they are when
  handed out for the \<open>n\<close>-th disjunct.
\<close>

record bd_params =
  p_strtol16 :: "string \<Rightarrow> int"
  p_sat_solver :: bool
  p_generation :: bool
  p_wstring :: string
  p_gs :: nat
  p_cost_cutoff :: cfloat
  p_fresh_disjunct :: "nat \<Rightarrow> Disjunct"
  p_fresh_category :: "nat \<Rightarrow> nat \<Rightarrow> Category_cost"

text \<open>The category branch is taken in generation mode for a word string that
  starts with a space (an empty string starts with its terminator).\<close>

definition is_category_word :: "bd_params \<Rightarrow> bool" where
  "is_category_word par \<longleftrightarrow>
     \<not> (p_sat_solver par \<or> (\<not> p_generation par \<or>
          (case p_wstring par of [] \<Rightarrow> True | ch # _ \<Rightarrow> CHR '' '' \<noteq> ch)))"

text \<open>A category-encoded word, in the words of the specification: generation mode,
  and a word string whose first byte is a space.\<close>

definition category_encoded :: "bd_params \<Rightarrow> bool" where
  "category_encoded par \<longleftrightarrow>
     p_generation par \<and> (case p_wstring par of [] \<Rightarrow> False | ch # _ \<Rightarrow> ch = CHR '' '')"

text \<open>The number stored in \<open>category[0].num\<close>, an unsigned int: the value of \<open>strtol\<close>
  modulo \<open>2 ^ 32\<close>.\<close>

definition category_number :: "bd_params \<Rightarrow> nat" where
  "category_number par = nat (p_strtol16 par (p_wstring par) mod 2 ^ 32)"

text \<open>The clauses \<open>build_disjunct\<close> does not skip: those with a connector and a total
  cost that is not greater than the cutoff.\<close>

definition kept_clauses :: "bd_params \<Rightarrow> Clause list \<Rightarrow> Clause list" where
  "kept_clauses par cls =
     filter (\<lambda>cl. cl_c cl \<noteq> [] \<and> \<not> fgt (cl_totcost cl) (p_cost_cutoff par)) cls"

text \<open>The fields of the new disjunct after the chains are built.  \<open>category[0].num\<close>
  is an unsigned int: the value of \<open>strtol\<close> is taken modulo \<open>2 ^ 32\<close>.\<close>

definition finish_disjunct :: "bd_params \<Rightarrow> Clause \<Rightarrow> nat \<Rightarrow> Disjunct \<Rightarrow> error + Disjunct" where
  "finish_disjunct par cl n ndis =
     (if \<not> is_category_word par
      then Inr (ndis\<lparr>d_word_string := p_wstring par, d_cost := cl_totcost cl,
                     d_is_category := 0, d_originating_gword := p_gs par\<rparr>)
      else
        (let cat = map (p_fresh_category par n) [0, 1, 2, 3];
             num = nat (p_strtol16 par (p_wstring par) mod 2 ^ 32);
             cat1 = cat[0 := (cat ! 0)\<lparr>cat_num := num\<rparr>];
             cat2 = cat1[1 := (cat1 ! 1)\<lparr>cat_num := 0\<rparr>]
         in if \<not> (num > 0 \<and> num < 64 * 1024) then Inl (Assert_insane_category (int num))
            else Inr (ndis\<lparr>d_num_categories_alloced := 4,
                           d_category := cat2[0 := (cat2 ! 0)\<lparr>cat_cost := cl_totcost cl\<rparr>],
                           d_num_categories := 1,
                           d_originating_gword := p_gs par\<rparr>)))"

text \<open>The loop over the clauses; \<open>dis\<close> is the list built so far, newest first.\<close>

fun build_disjunct :: "bd_params \<Rightarrow> Clause list \<Rightarrow> Disjunct list \<Rightarrow> bd_state
    \<Rightarrow> error + (Disjunct list \<times> bd_state)" where
  "build_disjunct par [] dis st = Inr (dis, st)"
| "build_disjunct par (cl # rest) dis st =
     (if cl_c cl = [] then build_disjunct par rest dis st
      else if fgt (cl_totcost cl) (p_cost_cutoff par) then build_disjunct par rest dis st
      else
        (let n = bd_disjuncts_used st;
             st0 = st\<lparr>bd_disjuncts_used := Suc n, bd_left := None, bd_right := None,
                      bd_jet := (\<lambda>idir. Dis_field), bd_is_tracon := (\<lambda>idir. False)\<rparr>;
             st1 = build_chains (cl_c cl) st0;
             ndis = (p_fresh_disjunct par n)\<lparr>d_left := bd_left st1, d_right := bd_right st1\<rparr>
         in case finish_disjunct par cl n ndis of
              Inl err \<Rightarrow> Inl err
            | Inr ndis' \<Rightarrow> build_disjunct par rest (ndis' # dis) st1))"

section \<open>The sentence (api-structures, as used by preparation.c)\<close>

text \<open>
  \<open>sent->word[w].d\<close> is the \<open>w\<close>-th list of \<open>sent_word_d\<close>, \<open>sent->length\<close> the number
  of these lists.  A disjunct list is a list of disjunct values: no disjunct is on
  two lists, and the code tells disjuncts apart only through their fields.
\<close>

record Sentence =
  sent_word_d :: "Disjunct list list"
  sent_connectors :: "nat \<Rightarrow> Connector"
  sent_connectors_used :: nat
  sent_disjuncts_used :: nat
  sent_rand_state :: nat

text \<open>The loop that thins out the list: \<open>rand_r\<close> maps the state to the number drawn
  and the next state.\<close>

fun trim_disjuncts :: "(nat \<Rightarrow> nat \<times> nat) \<Rightarrow> nat \<Rightarrow> nat \<Rightarrow> Disjunct list \<Rightarrow> nat
    \<Rightarrow> Disjunct list \<times> nat" where
  "trim_disjuncts rand_r discnt maxdj [] rst = ([], rst)"
| "trim_disjuncts rand_r discnt maxdj (d # rest) rst =
     (let (r, rst1) = rand_r rst;
          pick = r mod discnt;
          (kept, rst2) = trim_disjuncts rand_r discnt maxdj rest rst1
      in (if pick < maxdj then d # kept else kept, rst2))"

text \<open>\<open>build_disjuncts_for_exp\<close>: the context starts from zero and the scratch pools
  are reused for every expression, so the cells of the clauses are numbered from 0
  and no \<open>tracon\<close> field has been written.  \<open>max_disjuncts\<close> is the option of that
  name.\<close>

definition build_disjuncts_for_exp :: "(nat \<Rightarrow> nat \<times> nat) \<Rightarrow> nat \<Rightarrow> bd_params \<Rightarrow> Exp option
    \<Rightarrow> Sentence \<Rightarrow> error + (Exp \<times> Disjunct list \<times> Sentence)" where
  "build_disjuncts_for_exp rand_r max_disjuncts par e sent =
     (case build_clause e \<lparr>Tconnector_pool = 0, cost_cutoff = p_cost_cutoff par, exp_pos = 0\<rparr> of
        Inl err \<Rightarrow> Inl err
      | Inr (e', c, ct) \<Rightarrow>
          (case build_disjunct par c []
                  \<lparr>bd_connectors = sent_connectors sent,
                   bd_connectors_used = sent_connectors_used sent,
                   bd_disjuncts_used = sent_disjuncts_used sent,
                   bd_tracon = (\<lambda>a. None), bd_left = None, bd_right = None,
                   bd_jet = (\<lambda>idir. Dis_field), bd_is_tracon = (\<lambda>idir. False)\<rparr> of
             Inl err \<Rightarrow> Inl err
           | Inr (dis, st) \<Rightarrow>
               (let sent1 = sent\<lparr>sent_connectors := bd_connectors st,
                                 sent_connectors_used := bd_connectors_used st,
                                 sent_disjuncts_used := bd_disjuncts_used st\<rparr>
                in if max_disjuncts = 0 then Inr (e', dis, sent1)
                   else if length dis < max_disjuncts then Inr (e', dis, sent1)
                   else
                     (case dis of
                        [] \<Rightarrow> Inr (e', dis, sent1)
                      | d # rest \<Rightarrow>
                          (let (kept, rst) = trim_disjuncts rand_r (length dis) max_disjuncts rest
                                               (sent_rand_state sent)
                           in Inr (e', d # kept,
                                   if sent_rand_state sent \<noteq> 0
                                   then sent1\<lparr>sent_rand_state := rst\<rparr> else sent1))))))"

section \<open>Preparation (preparation.c)\<close>

text \<open>\<open>set_dist_fields\<close> follows the \<open>next\<close> links; on a chain that never reaches the
  null pointer it does not return (\<open>None\<close>).\<close>

partial_function (option) set_dist_fields :: "nat option \<Rightarrow> nat \<Rightarrow> int \<Rightarrow> (nat \<Rightarrow> Connector)
    \<Rightarrow> (int \<times> (nat \<Rightarrow> Connector)) option" where
  "set_dist_fields c w delta h =
     (case c of
        None \<Rightarrow> Some (int w, h)
      | Some a \<Rightarrow>
          Option.bind (set_dist_fields (c_next (h a)) w delta h)
            (\<lambda>(r, h'). Some (r + delta, h'(a := (h' a)\<lparr>c_nearest_word := r + delta\<rparr>))))"

declare set_dist_fields.simps [code]

text \<open>The test of the loop body of \<open>setup_connectors\<close>: true when the disjunct is
  skipped.  The right chain is not visited when the left one already reaches
  below 0.\<close>

definition too_long :: "nat \<Rightarrow> nat \<Rightarrow> Disjunct \<Rightarrow> (nat \<Rightarrow> Connector)
    \<Rightarrow> (bool \<times> (nat \<Rightarrow> Connector)) option" where
  "too_long w len d h =
     Option.bind (set_dist_fields (d_left d) w (- 1) h)
       (\<lambda>(l, h1). if l < 0 then Some (True, h1)
          else Option.bind (set_dist_fields (d_right d) w 1 h1)
                 (\<lambda>(r, h2). Some (r \<ge> int len, h2)))"

definition mark_shallow :: "nat option \<Rightarrow> (nat \<Rightarrow> Connector) \<Rightarrow> (nat \<Rightarrow> Connector)" where
  "mark_shallow c h = (case c of None \<Rightarrow> h | Some a \<Rightarrow> h(a := (h a)\<lparr>c_shallow := True\<rparr>))"

text \<open>The loop over the disjuncts of word \<open>w\<close>; \<open>head\<close> is the list of the disjuncts
  kept so far.  Freeing the category array of a skipped disjunct changes nothing
  that is modelled.\<close>

fun setup_word :: "nat \<Rightarrow> nat \<Rightarrow> Disjunct list \<Rightarrow> Disjunct list \<Rightarrow> (nat \<Rightarrow> Connector)
    \<Rightarrow> (Disjunct list \<times> (nat \<Rightarrow> Connector)) option" where
  "setup_word w len [] head h = Some (head, h)"
| "setup_word w len (d # xd) head h =
     Option.bind (too_long w len d h)
       (\<lambda>(skip, h1).
          if skip then setup_word w len xd head h1
          else setup_word w len xd (d # head) (mark_shallow (d_right d) (mark_shallow (d_left d) h1)))"

text \<open>The loop over the words, from word \<open>w\<close> on.\<close>

fun setup_words :: "nat \<Rightarrow> nat \<Rightarrow> Disjunct list list \<Rightarrow> (nat \<Rightarrow> Connector)
    \<Rightarrow> (Disjunct list list \<times> (nat \<Rightarrow> Connector)) option" where
  "setup_words w len [] h = Some ([], h)"
| "setup_words w len (ds # rest) h =
     Option.bind (setup_word w len ds [] h)
       (\<lambda>(head, h1). Option.bind (setup_words (Suc w) len rest h1)
          (\<lambda>(heads, h2). Some (head # heads, h2)))"

definition setup_connectors :: "Sentence \<Rightarrow> Sentence option" where
  "setup_connectors sent =
     Option.bind (setup_words 0 (length (sent_word_d sent)) (sent_word_d sent) (sent_connectors sent))
       (\<lambda>(heads, h). Some (sent\<lparr>sent_word_d := heads, sent_connectors := h\<rparr>))"

text \<open>A chain: the addresses met from \<open>c\<close> along the \<open>next\<close> links up to the null
  pointer.\<close>

fun chain :: "(nat \<Rightarrow> Connector) \<Rightarrow> nat option \<Rightarrow> nat list \<Rightarrow> bool" where
  "chain h c [] = (c = None)"
| "chain h c (a # as) = (c = Some a \<and> chain h (c_next (h a)) as)"

text \<open>The number of connectors from \<open>a\<close> to the end of the chain \<open>xs\<close>, \<open>a\<close> counted.\<close>

definition links_to_end :: "nat list \<Rightarrow> nat \<Rightarrow> nat" where
  "links_to_end xs a = length (dropWhile (\<lambda>x. x \<noteq> a) xs)"

text \<open>The heap \<open>set_dist_fields\<close> leaves behind.\<close>

definition dist_heap :: "nat \<Rightarrow> int \<Rightarrow> nat list \<Rightarrow> (nat \<Rightarrow> Connector) \<Rightarrow> (nat \<Rightarrow> Connector)" where
  "dist_heap w delta xs h =
     (\<lambda>b. if b \<in> set xs
          then (h b)\<lparr>c_nearest_word := int w + delta * int (links_to_end xs b)\<rparr>
          else h b)"

text \<open>
  Sentences as \<open>build_disjunct\<close> makes them: every chain of a disjunct ends in the
  null pointer, and a connector is met only on chains of one word and one
  direction (\<open>own\<close> names them: the word and whether the direction is right).
\<close>

definition owned :: "(nat \<Rightarrow> Connector) \<Rightarrow> (nat \<Rightarrow> nat \<times> bool) \<Rightarrow> nat \<times> bool \<Rightarrow> nat option \<Rightarrow> bool" where
  "owned h own lab c \<longleftrightarrow> (\<exists>xs. chain h c xs \<and> list_all (\<lambda>a. own a = lab) xs)"

definition wf_word :: "(nat \<Rightarrow> Connector) \<Rightarrow> (nat \<Rightarrow> nat \<times> bool) \<Rightarrow> nat \<Rightarrow> Disjunct list \<Rightarrow> bool" where
  "wf_word h own w ds \<longleftrightarrow>
     list_all (\<lambda>d. owned h own (w, False) (d_left d) \<and> owned h own (w, True) (d_right d)) ds"

definition wf_sent :: "(nat \<Rightarrow> nat \<times> bool) \<Rightarrow> Sentence \<Rightarrow> bool" where
  "wf_sent own sent \<longleftrightarrow>
     list_all (\<lambda>(w, ds). wf_word (sent_connectors sent) own w ds)
       (zip [0..<length (sent_word_d sent)] (sent_word_d sent))"

text \<open>The value a connector is due: its word plus or minus the number of
  connectors from it to the end of its chain.\<close>

definition expected :: "(nat \<Rightarrow> nat \<times> bool) \<Rightarrow> (nat \<Rightarrow> Connector) \<Rightarrow> nat \<Rightarrow> int \<Rightarrow> bool" where
  "expected own h0 b v \<longleftrightarrow>
     (\<exists>zs. chain h0 (Some b) zs \<and>
        v = int (fst (own b)) + (if snd (own b) then 1 else - 1) * int (length zs))"

text \<open>The connectors that head a chain of a disjunct of a list.\<close>

definition heads :: "Disjunct list \<Rightarrow> nat set" where
  "heads ds = {b. \<exists>d\<in>set ds. d_left d = Some b \<or> d_right d = Some b}"

text \<open>What holds of the connector heap \<open>h\<close> while \<open>setup_connectors\<close> runs on a heap
  that was \<open>h0\<close>: the links are those of \<open>h0\<close>, the connectors of \<open>S\<close> hold the value
  they are due, the connectors of \<open>H\<close> are marked shallow, and no other connector
  has become shallow.\<close>

definition prep_inv :: "(nat \<Rightarrow> Connector) \<Rightarrow> (nat \<Rightarrow> nat \<times> bool) \<Rightarrow> nat set \<Rightarrow> nat set
    \<Rightarrow> (nat \<Rightarrow> Connector) \<Rightarrow> bool" where
  "prep_inv h0 own S H h \<longleftrightarrow>
     (\<forall>b. c_next (h b) = c_next (h0 b)) \<and>
     (\<forall>b\<in>S. expected own h0 b (c_nearest_word (h b))) \<and>
     (\<forall>b\<in>H. c_shallow (h b)) \<and>
     (\<forall>b. c_shallow (h b) \<longrightarrow> c_shallow (h0 b) \<or> b \<in> H)"

text \<open>What holds of a disjunct that was kept for word \<open>w\<close> of \<open>len\<close> words.\<close>

definition kept_ok :: "(nat \<Rightarrow> Connector) \<Rightarrow> (nat \<Rightarrow> nat \<times> bool) \<Rightarrow> nat set \<Rightarrow> nat \<Rightarrow> nat
    \<Rightarrow> Disjunct \<Rightarrow> bool" where
  "kept_ok h0 own S w len d \<longleftrightarrow>
     (\<exists>xs ys. chain h0 (d_left d) xs \<and> chain h0 (d_right d) ys \<and>
        set xs \<subseteq> S \<and> set ys \<subseteq> S \<and>
        (\<forall>a\<in>set xs. own a = (w, False)) \<and> (\<forall>a\<in>set ys. own a = (w, True)) \<and>
        0 \<le> int w - int (length xs) \<and> int w + int (length ys) < int len)"

section \<open>Sample sentences\<close>

text \<open>A word that is no category, with cutoff 10; memory that was never written
  holds the cost 77 and the flag 9.\<close>

definition sample_params :: bd_params where
  "sample_params =
     \<lparr>p_strtol16 = (\<lambda>s. 0), p_sat_solver = False, p_generation = False, p_wstring = ''w'',
      p_gs = 0, p_cost_cutoff = flt 10,
      p_fresh_disjunct = (\<lambda>n. \<lparr>d_left = None, d_right = None, d_word_string = [], d_cost = flt 77,
         d_is_category = 9, d_num_categories_alloced = 0, d_num_categories = 0, d_category = [],
         d_originating_gword = 0\<rparr>),
      p_fresh_category = (\<lambda>n i. \<lparr>cat_num = 9, cat_cost = flt 77\<rparr>)\<rparr>"

definition empty_sentence :: Sentence where
  "empty_sentence = \<lparr>sent_word_d = [], sent_connectors = (\<lambda>a. zero_connector),
     sent_connectors_used = 0, sent_disjuncts_used = 0, sent_rand_state = 0\<rparr>"

text \<open>The sentence of \<open>len\<close> words in which word \<open>w\<close> has the one expression \<open>e\<close> and
  the other words have no disjunct, after its disjuncts are built (no limit on
  their number).\<close>

definition sentence_of_word :: "nat \<Rightarrow> nat \<Rightarrow> Exp \<Rightarrow> Sentence option" where
  "sentence_of_word w len e =
     (case build_disjuncts_for_exp (\<lambda>rst. (rst, rst)) 0 sample_params (Some e) empty_sentence of
        Inl err \<Rightarrow> None
      | Inr (e', dis, sent) \<Rightarrow> Some (sent\<lparr>sent_word_d := (replicate len [])[w := dis]\<rparr>))"

text \<open>The disjunct lists and the connector cells in use after \<open>setup_connectors\<close>.\<close>

definition prepared :: "Sentence option \<Rightarrow> (Disjunct list list \<times> Connector list) option" where
  "prepared sent =
     map_option (\<lambda>s. (sent_word_d s, map (sent_connectors s) [0..<sent_connectors_used s]))
       (Option.bind sent setup_connectors)"

text \<open>\<open>A- & B-\<close>.\<close>

definition exp_A_and_B_left :: Exp where
  "exp_A_and_B_left = and_exp 0 [connector_exp 1 (CHR ''-'') 0, connector_exp 2 (CHR ''-'') 0]"

text \<open>A disjunct of the word \<open>w\<close> with the given chains.\<close>

definition sample_disjunct :: "nat option \<Rightarrow> nat option \<Rightarrow> Disjunct" where
  "sample_disjunct l r = \<lparr>d_left = l, d_right = r, d_word_string = ''w'', d_cost = 0,
     d_is_category = 0, d_num_categories_alloced = 0, d_num_categories = 0, d_category = [],
     d_originating_gword = 0\<rparr>"

text \<open>Three connector cells, linked 0 to 1 and 2 to 1.\<close>

definition sample_heap :: "nat \<Rightarrow> Connector" where
  "sample_heap = (\<lambda>a. zero_connector)
     (0 := zero_connector\<lparr>c_next := Some 1\<rparr>, 2 := zero_connector\<lparr>c_next := Some 1\<rparr>)"

text \<open>A category word in generation mode: the string \<open>" 1f"\<close>, for which \<open>strtol\<close>
  yields 31.\<close>

definition category_params :: bd_params where
  "category_params = sample_params\<lparr>p_strtol16 := (\<lambda>s. 31), p_generation := True,
     p_wstring := '' 1f''\<rparr>"

text \<open>What the category branch leaves in the cell of the \<open>n\<close>-th disjunct for a
  clause of total cost \<open>x\<close>: the memory as it was handed out, but for the two chain
  heads, the three category fields and the word-graph set.\<close>

definition category_disjunct :: "bd_params \<Rightarrow> nat \<Rightarrow> cfloat \<Rightarrow> Disjunct \<Rightarrow> bool" where
  "category_disjunct par n x d \<longleftrightarrow>
     d = (p_fresh_disjunct par n)
           \<lparr>d_left := d_left d, d_right := d_right d,
            d_num_categories_alloced := 4,
            d_num_categories := 1,
            d_category :=
              [\<lparr>cat_num = nat (p_strtol16 par (p_wstring par) mod 2 ^ 32), cat_cost = x\<rparr>,
               (p_fresh_category par n 1)\<lparr>cat_num := 0\<rparr>,
               p_fresh_category par n 2, p_fresh_category par n 3],
            d_originating_gword := p_gs par\<rparr>"

text \<open>The state \<open>build_disjunct\<close> starts from in a sentence without any connector
  or disjunct yet.\<close>

definition sample_state :: bd_state where
  "sample_state = \<lparr>bd_connectors = (\<lambda>a. zero_connector), bd_connectors_used = 0,
     bd_disjuncts_used = 0, bd_tracon = (\<lambda>a. None), bd_left = None, bd_right = None,
     bd_jet = (\<lambda>idir. Dis_field), bd_is_tracon = (\<lambda>idir. False)\<rparr>"

text \<open>The expression \<open>A+ or () or B+ or C+\<close> with the costs 1/2 on \<open>A+\<close>, 3 on \<open>B+\<close> and 11
  on \<open>C+\<close>, and its four clauses: the second has no connector, the last costs more
  than the cutoff 10.\<close>

definition exp_four :: Exp where
  "exp_four = or_exp 0 [connector_exp 1 (CHR ''+'') (flt (1 / 2)), and_exp 0 [],
                        connector_exp 2 (CHR ''+'') (flt 3), connector_exp 3 (CHR ''+'') (flt 11)]"

definition sample_clauses :: "Clause list" where
  "sample_clauses =
     [\<lparr>cl_c = [\<lparr>t_addr = 0, t_e = Exp_struct CONNECTOR_type (flt (1 / 2)) 0 (CHR ''+'') False 1 0 [],
                  t_tracon = None\<rparr>],
        cl_totcost = flt (1 / 2)\<rparr>,
      \<lparr>cl_c = [], cl_totcost = 0\<rparr>,
      \<lparr>cl_c = [\<lparr>t_addr = 1, t_e = Exp_struct CONNECTOR_type (flt 3) 1 (CHR ''+'') False 2 0 [],
                  t_tracon = None\<rparr>],
        cl_totcost = flt 3\<rparr>,
      \<lparr>cl_c = [\<lparr>t_addr = 2, t_e = Exp_struct CONNECTOR_type (flt 11) 2 (CHR ''+'') False 3 0 [],
                  t_tracon = None\<rparr>],
        cl_totcost = flt 11\<rparr>]"

text \<open>The same word with the SAT solver in use.\<close>

definition sat_params :: bd_params where
  "sat_params = category_params\<lparr>p_sat_solver := True\<rparr>"

section \<open>The tracon set (tracon-set.c)\<close>

text \<open>
  The declarations of \<open>Tracon_set\<close>, \<open>clist_slot\<close> and the connector descriptor, and
  the tables \<open>s_prime\<close> and \<open>prime_mod_func\<close> of const-prime.h, are not part of the
  sources at hand.  What the code reads of a descriptor (\<open>uc_num\<close>, and
  \<open>lc_letters\<close> as cast to \<open>unsigned int\<close>) and the table of sizes are parameters.
  Modelled from the spec: \<open>prime_mod_func[i]\<close> reduces modulo \<open>s_prime[i]\<close> (the
  sizes are a fixed sequence of primes, used for hashing modulo the size).
\<close>

record tracon_env =
  s_prime :: "nat \<Rightarrow> nat"
  uc_num :: "nat \<Rightarrow> 32 word"
  lc_letters :: "nat \<Rightarrow> 32 word"

record clist_slot =
  slot_clist :: "nat option"
  slot_hash :: "32 word"

text \<open>The table is the memory \<open>ss->table\<close> points to, by slot index; \<open>mod_func\<close> is
  always \<open>prime_mod_func[prime_idx]\<close>.\<close>

record Tracon_set =
  ts_size :: nat
  ts_count :: nat
  ts_table :: "nat \<Rightarrow> clist_slot"
  ts_prime_idx :: nat
  ts_shallow :: bool





text \<open>The loop of \<open>hash_connectors\<close>, in \<open>unsigned int\<close> arithmetic; \<open>None\<close> when it
  does not return.\<close>

partial_function (option) hash_loop :: "tracon_env \<Rightarrow> (nat \<Rightarrow> Connector) \<Rightarrow> 32 word
    \<Rightarrow> nat option \<Rightarrow> 32 word \<Rightarrow> 32 word option" where
  "hash_loop env h k c accum =
     (case c of
        None \<Rightarrow> Some accum
      | Some a \<Rightarrow>
          hash_loop env h k (c_next (h a))
            (k * accum + push_bit 18 (uc_num env (c_desc (h a)))
               + push_bit 31 (of_bool (c_multi (h a)))
               + lc_letters env (c_desc (h a))))"

declare hash_loop.simps [code]

text \<open>The chain is given by the address of its first connector (the callers
  modelled here pass no null pointer).\<close>

definition hash_connectors :: "tracon_env \<Rightarrow> (nat \<Rightarrow> Connector) \<Rightarrow> 32 word \<Rightarrow> nat \<Rightarrow> bool
    \<Rightarrow> 32 word option" where
  "hash_connectors env h k c shallow =
     hash_loop env h k (Some c) (of_bool (shallow \<and> c_shallow (h c)))"



definition connector_equal :: "(nat \<Rightarrow> Connector) \<Rightarrow> nat \<Rightarrow> nat \<Rightarrow> bool" where
  "connector_equal h c1 c2 \<longleftrightarrow> c_desc (h c1) = c_desc (h c2) \<and> c_multi (h c1) = c_multi (h c2)"

partial_function (option) connector_list_equal :: "(nat \<Rightarrow> Connector) \<Rightarrow> nat option \<Rightarrow> nat option
    \<Rightarrow> bool option" where
  "connector_list_equal h c1 c2 =
     (case c1 of
        None \<Rightarrow> Some (c1 = None \<and> c2 = None)
      | Some a1 \<Rightarrow>
          (case c2 of
             None \<Rightarrow> Some (c1 = None \<and> c2 = None)
           | Some a2 \<Rightarrow>
               if \<not> connector_equal h a1 a2 then Some False
               else connector_list_equal h (c_next (h a1)) (c_next (h a2))))"

declare connector_list_equal.simps [code]

definition place_found :: "(nat \<Rightarrow> Connector) \<Rightarrow> nat \<Rightarrow> clist_slot \<Rightarrow> 32 word \<Rightarrow> Tracon_set
    \<Rightarrow> bool option" where
  "place_found h c slot hash ss =
     (case slot_clist slot of
        None \<Rightarrow> Some True
      | Some d \<Rightarrow>
          if hash \<noteq> slot_hash slot then Some False
          else Option.bind (connector_list_equal h (Some d) (Some c))
            (\<lambda>eq. if \<not> eq then Some False
                  else if ts_shallow ss \<and> c_shallow (h d) \<noteq> c_shallow (h c) then Some False
                  else connector_list_equal h (Some d) (Some c)))"










text \<open>Equality of two chains in the words of the specification: the same length,
  corresponding connectors with the same descriptor and multi flag, and in
  shallow-discriminating mode heads with the same shallow flag.\<close>

definition same_tracon :: "(nat \<Rightarrow> Connector) \<Rightarrow> bool \<Rightarrow> nat list \<Rightarrow> nat list \<Rightarrow> bool" where
  "same_tracon h shallow xs ys \<longleftrightarrow>
     length xs = length ys \<and>
     list_all2 (\<lambda>a b. c_desc (h a) = c_desc (h b) \<and> c_multi (h a) = c_multi (h b)) xs ys \<and>
     (shallow \<longrightarrow> c_shallow (h (hd xs)) = c_shallow (h (hd ys)))"






section \<open>Invariants of \<open>build_clause\<close> and \<open>build_disjunct\<close>\<close>

text \<open>
  The cells of a set of clauses, handed out between the pool positions \<open>lo\<close> and \<open>hi\<close>:
  within a clause no cell occurs twice, no \<open>tracon\<close> field is set, and two cells of
  the same address point to the same node (they are the same cell, shared by
  \<open>catenate\<close>).
\<close>

definition cells_ok :: "nat \<Rightarrow> nat \<Rightarrow> Clause set \<Rightarrow> bool" where
  "cells_ok lo hi S \<longleftrightarrow>
     (\<forall>cl\<in>S. distinct (map t_addr (cl_c cl)) \<and>
        (\<forall>t\<in>set (cl_c cl). lo \<le> t_addr t \<and> t_addr t < hi \<and> t_tracon t = None)) \<and>
     (\<forall>cl\<in>S. \<forall>cl'\<in>S. \<forall>t\<in>set (cl_c cl). \<forall>t'\<in>set (cl_c cl').
        t_addr t = t_addr t' \<longrightarrow> t_e t = t_e t')"

text \<open>\<open>idir\<close>, the direction of a temporary connector: \<open>True\<close> is 1, the right.\<close>

definition idir_of :: "Tconnector \<Rightarrow> bool" where
  "idir_of t = (e_dir (t_e t) = CHR ''+'')"

text \<open>\<open>ndis->left\<close> and \<open>ndis->right\<close>, by direction.\<close>

definition bd_head :: "bd_state \<Rightarrow> bool \<Rightarrow> nat option" where
  "bd_head st idir = (if idir then bd_right st else bd_left st)"

text \<open>The body of the loop over the cells of one clause.\<close>

definition chain_step :: "Tconnector \<Rightarrow> bd_state \<Rightarrow> bd_state" where
  "chain_step t st =
     (let idir = (e_dir (t_e t) = CHR ''+'') in
      if bd_is_tracon st idir then st
      else
        (case tracon_of st t of
           Some n \<Rightarrow> (store_jet idir (Some n) st)\<lparr>bd_is_tracon := (bd_is_tracon st)(idir := True)\<rparr>
         | None \<Rightarrow>
             (let n = bd_connectors_used st;
                  st1 = st\<lparr>bd_connectors :=
                             (bd_connectors st)(n := zero_connector\<lparr>c_desc := e_condesc (t_e t)\<rparr>),
                           bd_connectors_used := Suc n\<rparr>;
                  st2 = st1\<lparr>bd_tracon := (bd_tracon st1)(t_addr t := Some n)\<rparr>;
                  st3 = st2\<lparr>bd_connectors :=
                              (bd_connectors st2)(n := (bd_connectors st2 n)
                                 \<lparr>c_exp_pos := e_pos (t_e t), c_multi := e_multi (t_e t),
                                  c_farthest_word := e_farthest_word (t_e t)\<rparr>)\<rparr>;
                  st4 = store_jet idir (Some n) st3
              in st4\<lparr>bd_jet := (bd_jet st4)(idir := Next_field n)\<rparr>)))"

text \<open>The chain from \<open>c\<close> ends, and it consists of cells handed out between \<open>lo\<close> and
  \<open>hi\<close> that all carry the direction \<open>d\<close> (\<open>lab\<close> records the direction a cell was
  made for).\<close>

definition chain_in :: "(nat \<Rightarrow> Connector) \<Rightarrow> (nat \<Rightarrow> bool) \<Rightarrow> nat \<Rightarrow> nat \<Rightarrow> bool \<Rightarrow> nat option \<Rightarrow> bool" where
  "chain_in h lab lo hi d c \<longleftrightarrow> (\<exists>xs. chain h c xs \<and> (\<forall>a\<in>set xs. lo \<le> a \<and> a < hi \<and> lab a = d))"

text \<open>
  What holds of the \<open>tracon\<close> fields while \<open>build_disjunct\<close> works on a clause whose
  first new connector is \<open>k0\<close>: a field that is set belongs to a cell of \<open>T\<close>; the chain
  from the connector it holds ends and is all of that cell's direction; and either
  the connector was made for an earlier clause, and so was all of its chain, or the
  cell is one of those already visited in this clause (\<open>pre\<close>).
\<close>

definition tracons_ok :: "Tconnector set \<Rightarrow> nat \<Rightarrow> nat \<Rightarrow> nat set \<Rightarrow> (nat \<Rightarrow> bool) \<Rightarrow> (nat \<Rightarrow> Connector)
    \<Rightarrow> nat \<Rightarrow> (nat \<Rightarrow> nat option) \<Rightarrow> bool" where
  "tracons_ok T n0 k0 pre lab h u tr \<longleftrightarrow>
     (\<forall>ta n. tr ta = Some n \<longrightarrow>
        (\<exists>t\<in>T. t_addr t = ta \<and> lab n = idir_of t) \<and>
        (if n < k0 then chain_in h lab n0 k0 (lab n) (Some n)
         else ta \<in> pre \<and> chain_in h lab n0 u (lab n) (Some n)))"

text \<open>
  What holds of one direction of the disjunct under construction: once the
  direction is complete the chain from the head ends; before that, either nothing is
  linked yet, or \<open>jet\<close> points at the \<open>next\<close> field of the last connector of the chain
  from the head, all of whose connectors were made for this clause.
\<close>

definition jet_ok :: "nat \<Rightarrow> nat \<Rightarrow> (nat \<Rightarrow> bool) \<Rightarrow> (nat \<Rightarrow> Connector) \<Rightarrow> nat \<Rightarrow> bool \<Rightarrow> bool \<Rightarrow> jet
    \<Rightarrow> nat option \<Rightarrow> bool" where
  "jet_ok n0 k0 lab h u d is_tr j hd0 \<longleftrightarrow>
     (if is_tr then chain_in h lab n0 u d hd0
      else (case j of
              Dis_field \<Rightarrow> hd0 = None
            | Next_field m \<Rightarrow>
                (\<exists>xs. chain h hd0 xs \<and> xs \<noteq> [] \<and> last xs = m \<and>
                   (\<forall>a\<in>set xs. k0 \<le> a \<and> a < u \<and> lab a = d))))"

text \<open>The invariant of the loop over the cells of a clause.\<close>

definition chains_inv :: "Tconnector set \<Rightarrow> nat \<Rightarrow> nat \<Rightarrow> nat set \<Rightarrow> (nat \<Rightarrow> bool) \<Rightarrow> bd_state \<Rightarrow> bool" where
  "chains_inv T n0 k0 pre lab st \<longleftrightarrow>
     n0 \<le> k0 \<and> k0 \<le> bd_connectors_used st \<and>
     tracons_ok T n0 k0 pre lab (bd_connectors st) (bd_connectors_used st) (bd_tracon st) \<and>
     (\<forall>d. jet_ok n0 k0 lab (bd_connectors st) (bd_connectors_used st) d (bd_is_tracon st d)
             (bd_jet st d) (bd_head st d))"

text \<open>The invariant of the loop over the clauses: the chains of the disjuncts built
  so far, and of the connectors held in \<open>tracon\<close> fields, end and are of one
  direction.\<close>

definition disjuncts_inv :: "Tconnector set \<Rightarrow> nat \<Rightarrow> (nat \<Rightarrow> bool) \<Rightarrow> bd_state \<Rightarrow> Disjunct list \<Rightarrow> bool" where
  "disjuncts_inv T n0 lab st dis \<longleftrightarrow>
     n0 \<le> bd_connectors_used st \<and>
     tracons_ok T n0 (bd_connectors_used st) {} lab (bd_connectors st) (bd_connectors_used st)
       (bd_tracon st) \<and>
     (\<forall>d\<in>set dis. chain_in (bd_connectors st) lab n0 (bd_connectors_used st) False (d_left d) \<and>
        chain_in (bd_connectors st) lab n0 (bd_connectors_used st) True (d_right d))"

section \<open>Float additions that are exact\<close>

lemma fadd_zero_zero [simp]: "fadd 0 0 = 0"
  by (simp add: zero_cfloat_def)

section \<open>Clause expansion: size of the result\<close>

lemma catenate_length: "length (fst (catenate e1 e2 tp)) = length e1 + length e2"
  by (induction e1 arbitrary: tp) (simp_all add: case_prod_unfold Let_def)

lemma product_inner_length:
  "length (fst (product_inner c3 c2 c_head tp)) = length c2 + length c_head"
  by (induction c2 arbitrary: c_head tp) (simp_all add: case_prod_unfold Let_def)

lemma product_outer_length:
  "length (fst (product_outer c c2 c_head tp)) = length c * length c2 + length c_head"
proof (induction c arbitrary: c_head tp)
  case Nil
  then show ?case by simp
next
  case (Cons c3 rest)
  obtain h tp' where h: "product_inner c3 c2 c_head tp = (h, tp')" by fastforce
  have "length h = length c2 + length c_head"
    using product_inner_length [of c3 c2 c_head tp] h by simp
  then show ?case using Cons.IH [of h tp'] h by simp
qed

lemma add_cost_length [simp]: "length (add_cost x c) = length c"
  by (simp add: add_cost_def)

lemma add_cost_Nil_iff [simp]: "add_cost x c = [] \<longleftrightarrow> c = []"
  by (simp add: add_cost_def)

lemma build_clause_nonempty_aux:
  "\<forall>E' cls ct'. build_clause eo ct = Inr (E', cls, ct') \<longrightarrow> cls \<noteq> []"
  "\<forall>ops' c' ct'. build_AND ops c ct = Inr (ops', c', ct') \<longrightarrow> c \<noteq> [] \<longrightarrow> c' \<noteq> []"
  "\<forall>ops' c' ct'. build_OR ops2 c2 ct2 = Inr (ops', c', ct') \<longrightarrow> c2 \<noteq> [] \<longrightarrow> c' \<noteq> []"
proof (induction eo ct and ops c ct and ops2 c2 ct2 rule: build_clause_build_AND_build_OR.induct)
  case (2 co p d m cd fw ops ct)
  then show ?case by (auto split: sum.splits)
next
  case (4 co p d m cd fw operand_first rest ct)
  then show ?case by (auto split: sum.splits)
next
  case (5 co p d m cd fw ops ct)
  then show ?case by (auto split: prod.splits)
next
  case (8 opd rest c ct)
  show ?case
  proof (intro allI impI)
    fix ops' c' ct'
    assume a: "build_AND (opd # rest) c ct = Inr (ops', c', ct')" and c: "c \<noteq> []"
    then obtain opd' c2 ct1 where r1: "build_clause (Some opd) ct = Inr (opd', c2, ct1)"
      by (auto split: sum.splits)
    obtain c_head tp where po: "product_outer c c2 [] (Tconnector_pool ct1) = (c_head, tp)"
      by fastforce
    from a r1 po obtain rest' where
      r2: "build_AND rest c_head (ct1\<lparr>Tconnector_pool := tp\<rparr>) = Inr (rest', c', ct')"
      by (auto split: sum.splits)
    have "c2 \<noteq> []" using "8.IH"(1) r1 by simp
    moreover have "length c_head = length c * length c2"
      using product_outer_length [of c c2 "[]" "Tconnector_pool ct1"] po by simp
    ultimately have "c_head \<noteq> []" using c by auto
    then show "c' \<noteq> []"
      using "8.IH"(2) [OF r1 refl refl po [symmetric] refl] r2 by simp
  qed
next
  case (10 opd rest c ct)
  show ?case
  proof (intro allI impI)
    fix ops' c' ct'
    assume a: "build_OR (opd # rest) c ct = Inr (ops', c', ct')" and c: "c \<noteq> []"
    then obtain opd' c2 ct1 where r1: "build_clause (Some opd) ct = Inr (opd', c2, ct1)"
      by (auto split: sum.splits)
    from a r1 have ne: "c \<noteq> []" "c2 \<noteq> []" by (auto split: if_splits)
    from a r1 ne obtain rest' where r2: "build_OR rest (c @ c2) ct1 = Inr (rest', c', ct')"
      by (auto split: sum.splits)
    show "c' \<noteq> []"
      using "10.IH"(2) [OF r1 refl refl ne] r2 ne by simp
  qed
qed simp_all

lemma build_clause_nonempty:
  "build_clause eo ct = Inr (E', cls, ct') \<Longrightarrow> cls \<noteq> []"
  using build_clause_nonempty_aux(1) by blast

lemma build_clause_total_aux:
  "\<forall>E. eo = Some E \<longrightarrow> known_types E \<longrightarrow> or_nonempty E \<longrightarrow> (\<exists>r. build_clause eo ct = Inr r)"
  "list_all known_types ops \<longrightarrow> list_all or_nonempty ops \<longrightarrow> (\<exists>r. build_AND ops c ct = Inr r)"
  "list_all known_types ops2 \<longrightarrow> list_all or_nonempty ops2 \<longrightarrow> c2 \<noteq> [] \<longrightarrow> (\<exists>r. build_OR ops2 c2 ct2 = Inr r)"
proof (induction eo ct and ops c ct and ops2 c2 ct2 rule: build_clause_build_AND_build_OR.induct)
  case (2 co p d m cd fw ops ct)
  then show ?case by (auto split: sum.splits)
next
  case (4 co p d m cd fw operand_first rest ct)
  show ?case
  proof (intro allI impI)
    fix E
    assume E: "Some (Exp_struct OR_type co p d m cd fw (operand_first # rest)) = Some E"
      and k: "known_types E" and o: "or_nonempty E"
    then obtain opd' c ct1 where r1: "build_clause (Some operand_first) ct = Inr (opd', c, ct1)"
      using "4.IH"(1) by fastforce
    have "c \<noteq> []" using build_clause_nonempty [OF r1] .
    then obtain r where "build_OR rest c ct1 = Inr r"
      using "4.IH"(2) [OF r1 refl refl] E k o by auto
    then show "\<exists>r. build_clause (Some (Exp_struct OR_type co p d m cd fw (operand_first # rest))) ct = Inr r"
      using r1 by (auto split: prod.splits)
  qed
next
  case (5 co p d m cd fw ops ct)
  then show ?case by (auto split: prod.splits)
next
  case (8 opd rest c ct)
  show ?case
  proof (intro impI)
    assume k: "list_all known_types (opd # rest)" and o: "list_all or_nonempty (opd # rest)"
    then obtain opd' c2 ct1 where r1: "build_clause (Some opd) ct = Inr (opd', c2, ct1)"
      using "8.IH"(1) by fastforce
    obtain c_head tp where po: "product_outer c c2 [] (Tconnector_pool ct1) = (c_head, tp)"
      by fastforce
    obtain r where "build_AND rest c_head (ct1\<lparr>Tconnector_pool := tp\<rparr>) = Inr r"
      using "8.IH"(2) [OF r1 refl refl po [symmetric] refl] k o by auto
    then show "\<exists>r. build_AND (opd # rest) c ct = Inr r"
      using r1 po by (auto split: prod.splits)
  qed
next
  case (10 opd rest c ct)
  show ?case
  proof (intro impI)
    assume k: "list_all known_types (opd # rest)" and o: "list_all or_nonempty (opd # rest)"
      and c: "c \<noteq> []"
    then obtain opd' c2 ct1 where r1: "build_clause (Some opd) ct = Inr (opd', c2, ct1)"
      using "10.IH"(1) by fastforce
    have c2: "c2 \<noteq> []" using build_clause_nonempty [OF r1] .
    obtain r where "build_OR rest (c @ c2) ct1 = Inr r"
      using "10.IH"(2) [OF r1 refl refl c c2] k o c by auto
    then show "\<exists>r. build_OR (opd # rest) c ct = Inr r"
      using r1 c c2 by (auto split: prod.splits)
  qed
qed simp_all

lemma build_clause_total:
  "known_types E \<Longrightarrow> or_nonempty E \<Longrightarrow> \<exists>E' cls ct'. build_clause (Some E) ct = Inr (E', cls, ct')"
  using build_clause_total_aux(1) [of "Some E" ct] by (metis prod_cases3)

lemma build_clause_count_aux:
  "\<forall>E E' cls ct'. eo = Some E \<longrightarrow> build_clause eo ct = Inr (E', cls, ct') \<longrightarrow> length cls = N E"
  "\<forall>ops' c' ct'. build_AND ops c ct = Inr (ops', c', ct') \<longrightarrow>
     length c' = length c * prod_list (map N ops)"
  "\<forall>ops' c' ct'. build_OR ops2 c2 ct2 = Inr (ops', c', ct') \<longrightarrow>
     length c' = length c2 + sum_list (map N ops2)"
proof (induction eo ct and ops c ct and ops2 c2 ct2 rule: build_clause_build_AND_build_OR.induct)
  case (2 co p d m cd fw ops ct)
  then show ?case by (auto split: sum.splits)
next
  case (4 co p d m cd fw operand_first rest ct)
  then show ?case by (auto split: sum.splits)
next
  case (5 co p d m cd fw ops ct)
  then show ?case by (auto split: prod.splits)
next
  case (8 opd rest c ct)
  show ?case
  proof (intro allI impI)
    fix ops' c' ct'
    assume a: "build_AND (opd # rest) c ct = Inr (ops', c', ct')"
    then obtain opd' c2 ct1 where r1: "build_clause (Some opd) ct = Inr (opd', c2, ct1)"
      by (auto split: sum.splits)
    obtain c_head tp where po: "product_outer c c2 [] (Tconnector_pool ct1) = (c_head, tp)"
      by fastforce
    from a r1 po obtain rest' where
      r2: "build_AND rest c_head (ct1\<lparr>Tconnector_pool := tp\<rparr>) = Inr (rest', c', ct')"
      by (auto split: sum.splits)
    have l2: "length c2 = N opd" using "8.IH"(1) r1 by simp
    have lh: "length c_head = length c * length c2"
      using product_outer_length [of c c2 "[]" "Tconnector_pool ct1"] po by simp
    have "length c' = length c_head * prod_list (map N rest)"
      using "8.IH"(2) [OF r1 refl refl po [symmetric] refl] r2 by simp
    then show "length c' = length c * prod_list (map N (opd # rest))"
      using l2 lh by simp
  qed
next
  case (10 opd rest c ct)
  show ?case
  proof (intro allI impI)
    fix ops' c' ct'
    assume a: "build_OR (opd # rest) c ct = Inr (ops', c', ct')"
    then obtain opd' c2 ct1 where r1: "build_clause (Some opd) ct = Inr (opd', c2, ct1)"
      by (auto split: sum.splits)
    from a r1 have ne: "c \<noteq> []" "c2 \<noteq> []" by (auto split: if_splits)
    from a r1 ne obtain rest' where r2: "build_OR rest (c @ c2) ct1 = Inr (rest', c', ct')"
      by (auto split: sum.splits)
    have l2: "length c2 = N opd" using "10.IH"(1) r1 by simp
    have "length c' = length (c @ c2) + sum_list (map N rest)"
      using "10.IH"(2) [OF r1 refl refl ne] r2 by simp
    then show "length c' = length c + sum_list (map N (opd # rest))"
      using l2 by simp
  qed
qed simp_all

lemma build_clause_count:
  "build_clause (Some E) ct = Inr (E', cls, ct') \<Longrightarrow> length cls = N E"
  using build_clause_count_aux(1) by blast

text \<open>
  C5 (as amended).  For every expression tree whose nodes are all AND, OR or
  CONNECTOR nodes and whose OR nodes all have at least one operand, \<open>build_clause\<close>
  returns a clause list, and the number of its clauses is \<open>N E\<close>: 1 for a
  connector, the product over the operands for AND, the sum for OR.
\<close>

theorem build_clause_returns_N_clauses:
  "known_types E \<Longrightarrow> or_nonempty E \<Longrightarrow>
   \<exists>E' cls ct'. build_clause (Some E) ct = Inr (E', cls, ct') \<and> length cls = N E"
  using build_clause_total [of E ct] build_clause_count [of E ct] by blast

theorem build_clause_returns_N_clauses_witness:
  "known_types exp_Z_opt_X \<and> or_nonempty exp_Z_opt_X \<and> N exp_Z_opt_X = 2 \<and>
   (\<exists>E' cls ct'. build_clause (Some exp_Z_opt_X) (context0 0) = Inr (E', cls, ct')
      \<and> length cls = N exp_Z_opt_X)"
proof -
  have k: "known_types exp_Z_opt_X"
    by (simp add: exp_Z_opt_X_def and_exp_def or_exp_def connector_exp_def)
  have o: "or_nonempty exp_Z_opt_X"
    by (simp add: exp_Z_opt_X_def and_exp_def or_exp_def connector_exp_def)
  have n: "N exp_Z_opt_X = 2"
    by (simp add: exp_Z_opt_X_def and_exp_def or_exp_def connector_exp_def)
  show ?thesis
    using k o n build_clause_returns_N_clauses [OF k o, of "context0 0"] by simp
qed

text \<open>The claim as stated fails at an OR node without operands: its nodes are all
  of a known type and its count is 0, but \<open>build_clause\<close> returns no list.\<close>

theorem build_clause_count_counterexample:
  "known_types (or_exp 0 []) \<and> N (or_exp 0 []) = 0
   \<and> build_clause (Some (or_exp 0 [])) (context0 0) = Inl Assert_null_parameter"
  by (simp add: or_exp_def)

lemma build_clause_empty_OR_fails_aux:
  "\<forall>E. eo = Some E \<longrightarrow> has_empty_OR E \<longrightarrow> (\<exists>err. build_clause eo ct = Inl err)"
  "list_ex has_empty_OR ops \<longrightarrow> (\<exists>err. build_AND ops c ct = Inl err)"
  "list_ex has_empty_OR ops2 \<longrightarrow> (\<exists>err. build_OR ops2 c2 ct2 = Inl err)"
proof (induction eo ct and ops c ct and ops2 c2 ct2 rule: build_clause_build_AND_build_OR.induct)
  case (2 co p d m cd fw ops ct)
  then show ?case by (auto split: sum.splits)
next
  case (4 co p d m cd fw operand_first rest ct)
  show ?case
  proof (intro allI impI)
    fix E
    assume E: "Some (Exp_struct OR_type co p d m cd fw (operand_first # rest)) = Some E"
      and h: "has_empty_OR E"
    show "\<exists>err. build_clause (Some (Exp_struct OR_type co p d m cd fw (operand_first # rest))) ct
            = Inl err"
    proof (cases "build_clause (Some operand_first) ct")
      case (Inl err)
      then show ?thesis by simp
    next
      case (Inr r)
      obtain opd' c ct1 where r: "r = (opd', c, ct1)" by (cases r) auto
      have r1: "build_clause (Some operand_first) ct = Inr (opd', c, ct1)" using Inr r by simp
      have "\<not> has_empty_OR operand_first" using "4.IH"(1) r1 by auto
      then have "list_ex has_empty_OR rest" using h E by auto
      then obtain err where "build_OR rest c ct1 = Inl err"
        using "4.IH"(2) [OF r1 refl refl] by auto
      then show ?thesis using r1 by simp
    qed
  qed
next
  case (8 opd rest c ct)
  show ?case
  proof (intro impI)
    assume h: "list_ex has_empty_OR (opd # rest)"
    show "\<exists>err. build_AND (opd # rest) c ct = Inl err"
    proof (cases "build_clause (Some opd) ct")
      case (Inl err)
      then show ?thesis by simp
    next
      case (Inr r)
      obtain opd' c2 ct1 where r: "r = (opd', c2, ct1)" by (cases r) auto
      have r1: "build_clause (Some opd) ct = Inr (opd', c2, ct1)" using Inr r by simp
      obtain c_head tp where po: "product_outer c c2 [] (Tconnector_pool ct1) = (c_head, tp)"
        by fastforce
      have "\<not> has_empty_OR opd" using "8.IH"(1) r1 by auto
      then have "list_ex has_empty_OR rest" using h by simp
      then obtain err where "build_AND rest c_head (ct1\<lparr>Tconnector_pool := tp\<rparr>) = Inl err"
        using "8.IH"(2) [OF r1 refl refl po [symmetric] refl] by auto
      then show ?thesis using r1 po by simp
    qed
  qed
next
  case (10 opd rest c ct)
  show ?case
  proof (intro impI)
    assume h: "list_ex has_empty_OR (opd # rest)"
    show "\<exists>err. build_OR (opd # rest) c ct = Inl err"
    proof (cases "build_clause (Some opd) ct")
      case (Inl err)
      then show ?thesis by simp
    next
      case (Inr r)
      obtain opd' c2 ct1 where r: "r = (opd', c2, ct1)" by (cases r) auto
      have r1: "build_clause (Some opd) ct = Inr (opd', c2, ct1)" using Inr r by simp
      have "\<not> has_empty_OR opd" using "10.IH"(1) r1 by auto
      then have hr: "list_ex has_empty_OR rest" using h by simp
      show ?thesis
      proof (cases "c = [] \<or> c2 = []")
        case True
        then show ?thesis using r1 by auto
      next
        case False
        then obtain err where "build_OR rest (c @ c2) ct1 = Inl err"
          using "10.IH"(2) [OF r1 refl refl] hr by auto
        then show ?thesis using r1 False by simp
      qed
    qed
  qed
qed simp_all

lemma build_clause_known_error_aux:
  "\<forall>E err. eo = Some E \<longrightarrow> known_types E \<longrightarrow> build_clause eo ct = Inl err
     \<longrightarrow> err = Assert_null_parameter"
  "\<forall>err. list_all known_types ops \<longrightarrow> build_AND ops c ct = Inl err
     \<longrightarrow> err = Assert_null_parameter"
  "\<forall>err. list_all known_types ops2 \<longrightarrow> c2 \<noteq> [] \<longrightarrow> build_OR ops2 c2 ct2 = Inl err
     \<longrightarrow> err = Assert_null_parameter"
proof (induction eo ct and ops c ct and ops2 c2 ct2 rule: build_clause_build_AND_build_OR.induct)
  case (2 co p d m cd fw ops ct)
  then show ?case by (auto split: sum.splits)
next
  case (4 co p d m cd fw operand_first rest ct)
  show ?case
  proof (intro allI impI)
    fix E err
    assume E: "Some (Exp_struct OR_type co p d m cd fw (operand_first # rest)) = Some E"
      and k: "known_types E"
      and f: "build_clause (Some (Exp_struct OR_type co p d m cd fw (operand_first # rest))) ct = Inl err"
    show "err = Assert_null_parameter"
    proof (cases "build_clause (Some operand_first) ct")
      case (Inl e1)
      then show ?thesis using "4.IH"(1) E k f by auto
    next
      case (Inr r)
      obtain opd' c ct1 where r: "r = (opd', c, ct1)" by (cases r) auto
      have r1: "build_clause (Some operand_first) ct = Inr (opd', c, ct1)" using Inr r by simp
      have c: "c \<noteq> []" using build_clause_nonempty [OF r1] .
      from f r1 have "build_OR rest c ct1 = Inl err" by (auto split: sum.splits)
      then show ?thesis using "4.IH"(2) [OF r1 refl refl] c E k by auto
    qed
  qed
next
  case (5 co p d m cd fw ops ct)
  then show ?case by (auto split: prod.splits)
next
  case (8 opd rest c ct)
  show ?case
  proof (intro allI impI)
    fix err
    assume k: "list_all known_types (opd # rest)" and f: "build_AND (opd # rest) c ct = Inl err"
    show "err = Assert_null_parameter"
    proof (cases "build_clause (Some opd) ct")
      case (Inl e1)
      then show ?thesis using "8.IH"(1) k f by auto
    next
      case (Inr r)
      obtain opd' c2 ct1 where r: "r = (opd', c2, ct1)" by (cases r) auto
      have r1: "build_clause (Some opd) ct = Inr (opd', c2, ct1)" using Inr r by simp
      obtain c_head tp where po: "product_outer c c2 [] (Tconnector_pool ct1) = (c_head, tp)"
        by fastforce
      from f r1 po have "build_AND rest c_head (ct1\<lparr>Tconnector_pool := tp\<rparr>) = Inl err"
        by (auto split: sum.splits)
      then show ?thesis using "8.IH"(2) [OF r1 refl refl po [symmetric] refl] k by auto
    qed
  qed
next
  case (10 opd rest c ct)
  show ?case
  proof (intro allI impI)
    fix err
    assume k: "list_all known_types (opd # rest)" and c: "c \<noteq> []"
      and f: "build_OR (opd # rest) c ct = Inl err"
    show "err = Assert_null_parameter"
    proof (cases "build_clause (Some opd) ct")
      case (Inl e1)
      then show ?thesis using "10.IH"(1) k f by auto
    next
      case (Inr r)
      obtain opd' c2 ct1 where r: "r = (opd', c2, ct1)" by (cases r) auto
      have r1: "build_clause (Some opd) ct = Inr (opd', c2, ct1)" using Inr r by simp
      have c2: "c2 \<noteq> []" using build_clause_nonempty [OF r1] .
      from f r1 c c2 have "build_OR rest (c @ c2) ct1 = Inl err"
        by (auto split: sum.splits)
      then show ?thesis using "10.IH"(2) [OF r1 refl refl c c2] k c by auto
    qed
  qed
qed simp_all

text \<open>
  C7 (as amended).  For every expression tree that contains an OR node without
  operands, \<open>build_clause\<close> returns no clause list: the call for the missing first
  operand fails the assertion \<open>e != NULL\<close>, and the failure ends the whole
  expansion (no surrounding AND product is pruned, none is computed).  When all
  nodes are of a known type, that assertion is the one that fails.
\<close>

theorem build_clause_empty_OR_fails:
  "has_empty_OR E \<Longrightarrow>
   (\<exists>err. build_clause (Some E) ct = Inl err) \<and>
   (known_types E \<longrightarrow> build_clause (Some E) ct = Inl Assert_null_parameter)"
  using build_clause_empty_OR_fails_aux(1) [of "Some E" ct]
    build_clause_known_error_aux(1) [of "Some E" ct] by auto

theorem build_clause_empty_OR_fails_witness:
  "has_empty_OR (or_exp 0 [connector_exp 1 (CHR ''+'') 0, or_exp 0 [] ]) \<and>
   build_clause (Some (or_exp 0 [connector_exp 1 (CHR ''+'') 0, or_exp 0 [] ])) (context0 0)
     = Inl Assert_null_parameter"
proof -
  have h: "has_empty_OR (or_exp 0 [connector_exp 1 (CHR ''+'') 0, or_exp 0 [] ])"
    by (simp add: or_exp_def connector_exp_def)
  have k: "known_types (or_exp 0 [connector_exp 1 (CHR ''+'') 0, or_exp 0 [] ])"
    by (simp add: or_exp_def connector_exp_def)
  show ?thesis
    using h k build_clause_empty_OR_fails [OF h, of "context0 0"] by simp
qed

text \<open>The claim as stated fails for \<open>A+ & ()or\<close>, an AND node whose second operand
  is an OR node without operands: the call fails, it does not return the empty
  list.\<close>

theorem build_clause_empty_OR_counterexample:
  "has_empty_OR (and_exp 0 [connector_exp 1 (CHR ''+'') 0, or_exp 0 [] ]) \<and>
   build_clause (Some (and_exp 0 [connector_exp 1 (CHR ''+'') 0, or_exp 0 [] ])) (context0 0)
     = Inl Assert_null_parameter"
  by (simp add: and_exp_def or_exp_def connector_exp_def context0_def build_terminal_def Let_def)

section \<open>Clause expansion: what a clause holds\<close>

lemma catenate_exps:
  "map t_e (fst (catenate e1 e2 tp)) = map t_e e1 @ map t_e e2"
  by (induction e1 arbitrary: tp) (simp_all add: case_prod_unfold Let_def)

lemma product_inner_set:
  "cl \<in> set (fst (product_inner c3 c2 c_head tp)) \<Longrightarrow>
   cl \<in> set c_head \<or>
   (\<exists>c4\<in>set c2. clause_exps cl = clause_exps c4 @ clause_exps c3
       \<and> cl_totcost cl = fadd (cl_totcost c3) (cl_totcost c4))"
proof (induction c2 arbitrary: c_head tp)
  case Nil
  then show ?case by simp
next
  case (Cons c4 rest)
  obtain l tp' where l: "catenate (cl_c c4) (cl_c c3) tp = (l, tp')" by fastforce
  let ?c5 = "\<lparr>cl_c = l, cl_totcost = fadd (cl_totcost c3) (cl_totcost c4)\<rparr>"
  have c5: "clause_exps ?c5 = clause_exps c4 @ clause_exps c3"
    using catenate_exps [of "cl_c c4" "cl_c c3" tp] l by (simp add: clause_exps_def)
  from Cons.prems l have "cl \<in> set (fst (product_inner c3 rest (?c5 # c_head) tp'))"
    by simp
  from Cons.IH [OF this] show ?case using c5 by auto
qed

lemma product_outer_set:
  "cl \<in> set (fst (product_outer c c2 c_head tp)) \<Longrightarrow>
   cl \<in> set c_head \<or>
   (\<exists>c3\<in>set c. \<exists>c4\<in>set c2. clause_exps cl = clause_exps c4 @ clause_exps c3
       \<and> cl_totcost cl = fadd (cl_totcost c3) (cl_totcost c4))"
proof (induction c arbitrary: c_head tp)
  case Nil
  then show ?case by simp
next
  case (Cons c3 rest)
  obtain h tp' where h: "product_inner c3 c2 c_head tp = (h, tp')" by fastforce
  from Cons.prems h have "cl \<in> set (fst (product_outer rest c2 h tp'))" by simp
  from Cons.IH [OF this] show ?case
  proof
    assume "cl \<in> set h"
    then have "cl \<in> set (fst (product_inner c3 c2 c_head tp))" using h by simp
    from product_inner_set [OF this] show ?thesis by auto
  next
    assume "\<exists>c3\<in>set rest. \<exists>c4\<in>set c2. clause_exps cl = clause_exps c4 @ clause_exps c3
       \<and> cl_totcost cl = fadd (cl_totcost c3) (cl_totcost c4)"
    then show ?thesis by auto
  qed
qed

lemma add_cost_set:
  "cl \<in> set (add_cost x c) \<Longrightarrow>
   \<exists>c1\<in>set c. clause_exps cl = clause_exps c1 \<and> cl_totcost cl = fadd (cl_totcost c1) x"
  by (auto simp: add_cost_def clause_exps_def)

lemma agrees_product:
  "agrees c3 (s3, k3) \<Longrightarrow> agrees c4 (s4, k4) \<Longrightarrow> clause_exps cl = clause_exps c4 @ clause_exps c3 \<Longrightarrow>
   cl_totcost cl = fadd (cl_totcost c3) (cl_totcost c4) \<Longrightarrow> agrees cl (s3 @ s4, fadd k3 k4)"
  by (simp add: agrees_def)

lemma agrees_add_cost:
  "agrees c1 (sel, k) \<Longrightarrow> clause_exps cl = clause_exps c1 \<Longrightarrow>
   cl_totcost cl = fadd (cl_totcost c1) (e_cost e) \<Longrightarrow>
   \<not> is_connector e \<Longrightarrow> agrees cl (e # sel, fadd k (e_cost e))"
  by (simp add: agrees_def)

lemma build_clause_selection_aux:
  "\<forall>E' cls ct'. build_clause eo ct = Inr (E', cls, ct') \<longrightarrow>
     (\<forall>cl\<in>set cls. \<exists>sk\<in>set (selections E'). agrees cl sk)"
  "\<forall>ops' c' ct' S. build_AND ops c ct = Inr (ops', c', ct') \<longrightarrow>
     (\<forall>cl\<in>set c. \<exists>sk\<in>S. agrees cl sk) \<longrightarrow>
     (\<forall>cl\<in>set c'. \<exists>sk\<in>S. \<exists>sk2\<in>set (selections_AND (snd sk) ops').
        agrees cl (fst sk @ fst sk2, snd sk2))"
  "\<forall>ops' c' ct' S. build_OR ops2 c2 ct2 = Inr (ops', c', ct') \<longrightarrow>
     (\<forall>cl\<in>set c2. \<exists>sk\<in>S. agrees cl sk) \<longrightarrow>
     (\<forall>cl\<in>set c'. \<exists>sk\<in>S \<union> set (selections_OR ops'). agrees cl sk)"
proof (induction eo ct and ops c ct and ops2 c2 ct2 rule: build_clause_build_AND_build_OR.induct)
  case (2 co p d m cd fw ops ct)
  show ?case
  proof (intro allI impI ballI)
    fix E' cls ct' cl
    assume a: "build_clause (Some (Exp_struct AND_type co p d m cd fw ops)) ct = Inr (E', cls, ct')"
      and cl: "cl \<in> set cls"
    let ?c0 = "\<lparr>cl_c = [], cl_totcost = 0\<rparr>"
    from a obtain ops' c where r: "build_AND ops [?c0] ct = Inr (ops', c, ct')"
      and E': "E' = Exp_struct AND_type co p d m cd fw ops'" and cls: "cls = add_cost co c"
      by (auto split: sum.splits)
    have i0: "\<forall>cl\<in>set [?c0]. \<exists>sk\<in>{([], 0)}. agrees cl sk"
      by (simp add: agrees_def clause_exps_def)
    from add_cost_set cl cls obtain c1 where c1: "c1 \<in> set c" "clause_exps cl = clause_exps c1"
      "cl_totcost cl = fadd (cl_totcost c1) co" by blast
    have "\<exists>sk\<in>{([], 0)}. \<exists>sk2\<in>set (selections_AND (snd sk) ops').
        agrees c1 (fst sk @ fst sk2, snd sk2)"
      using "2.IH" [rule_format, OF r bspec [OF i0] c1(1)] .
    then obtain sel2 k2 where s: "(sel2, k2) \<in> set (selections_AND 0 ops')" "agrees c1 (sel2, k2)"
      by auto
    have "agrees cl (E' # sel2, fadd k2 co)"
      using agrees_add_cost [OF s(2) c1(2), of E'] c1(3) E' by (simp add: is_connector_def)
    moreover have "(E' # sel2, fadd k2 co) \<in> set (selections E')" using s(1) E' by force
    ultimately show "\<exists>sk\<in>set (selections E'). agrees cl sk" by blast
  qed
next
  case (4 co p d m cd fw operand_first rest ct)
  show ?case
  proof (intro allI impI ballI)
    fix E' cls ct' cl
    assume a: "build_clause (Some (Exp_struct OR_type co p d m cd fw (operand_first # rest))) ct
                 = Inr (E', cls, ct')"
      and cl: "cl \<in> set cls"
    from a obtain opd' c ct1 where r1: "build_clause (Some operand_first) ct = Inr (opd', c, ct1)"
      by (auto split: sum.splits)
    from a r1 obtain rest' c' where r2: "build_OR rest c ct1 = Inr (rest', c', ct')"
      and E': "E' = Exp_struct OR_type co p d m cd fw (opd' # rest')" and cls: "cls = add_cost co c'"
      by (auto split: sum.splits)
    have i1: "\<forall>cl\<in>set c. \<exists>sk\<in>set (selections opd'). agrees cl sk"
      using "4.IH"(1) [rule_format, OF r1] by blast
    from add_cost_set cl cls obtain c1 where c1: "c1 \<in> set c'" "clause_exps cl = clause_exps c1"
      "cl_totcost cl = fadd (cl_totcost c1) co" by blast
    have "\<exists>sk\<in>set (selections opd') \<union> set (selections_OR rest'). agrees c1 sk"
      using "4.IH"(2) [OF r1 refl refl, rule_format, OF r2 bspec [OF i1] c1(1)] .
    then obtain sel k where s: "(sel, k) \<in> set (selections opd') \<union> set (selections_OR rest')"
      "agrees c1 (sel, k)"
      by auto
    have "agrees cl (E' # sel, fadd k co)"
      using agrees_add_cost [OF s(2) c1(2), of E'] c1(3) E' by (simp add: is_connector_def)
    moreover have "(E' # sel, fadd k co) \<in> set (selections E')" using s(1) E' by force
    ultimately show "\<exists>sk\<in>set (selections E'). agrees cl sk" by blast
  qed
next
  case (5 co p d m cd fw ops ct)
  then show ?case
    by (auto simp: build_terminal_def Let_def agrees_def clause_exps_def is_connector_def)
next
  case (7 c ct)
  show ?case
  proof (intro allI impI ballI)
    fix ops' c' ct' S cl
    assume a: "build_AND [] c ct = Inr (ops', c', ct')"
      and inv: "\<forall>cl\<in>set c. \<exists>sk\<in>S. agrees cl sk" and cl: "cl \<in> set c'"
    then obtain sk where "sk \<in> S" "agrees cl sk" by auto
    moreover have "ops' = []" using a by simp
    ultimately show "\<exists>sk\<in>S. \<exists>sk2\<in>set (selections_AND (snd sk) ops').
        agrees cl (fst sk @ fst sk2, snd sk2)"
      by (intro bexI [of _ sk] bexI [of _ "([], snd sk)"]) simp_all
  qed
next
  case (8 opd rest c ct)
  show ?case
  proof (intro allI impI ballI)
    fix ops' c' ct' S cl
    assume a: "build_AND (opd # rest) c ct = Inr (ops', c', ct')"
      and inv: "\<forall>cl\<in>set c. \<exists>sk\<in>S. agrees cl sk" and cl: "cl \<in> set c'"
    then obtain opd' c2 ct1 where r1: "build_clause (Some opd) ct = Inr (opd', c2, ct1)"
      by (auto split: sum.splits)
    obtain c_head tp where po: "product_outer c c2 [] (Tconnector_pool ct1) = (c_head, tp)"
      by fastforce
    from a r1 po obtain rest' where
      r2: "build_AND rest c_head (ct1\<lparr>Tconnector_pool := tp\<rparr>) = Inr (rest', c', ct')"
      and ops': "ops' = opd' # rest'"
      by (auto split: sum.splits)
    have i2: "\<forall>cl\<in>set c2. \<exists>sk\<in>set (selections opd'). agrees cl sk"
      using "8.IH"(1) [rule_format, OF r1] by blast
    let ?S = "{(s3 @ s4, fadd k3 k4) | s3 k3 s4 k4. (s3, k3) \<in> S \<and> (s4, k4) \<in> set (selections opd')}"
    have ih: "\<forall>cl\<in>set c_head. \<exists>sk\<in>?S. agrees cl sk"
    proof
      fix x assume "x \<in> set c_head"
      then have "x \<in> set (fst (product_outer c c2 [] (Tconnector_pool ct1)))" using po by simp
      from product_outer_set [OF this] obtain c3 c4 where
        c: "c3 \<in> set c" "c4 \<in> set c2" "clause_exps x = clause_exps c4 @ clause_exps c3"
        "cl_totcost x = fadd (cl_totcost c3) (cl_totcost c4)" by auto
      from inv c(1) obtain s3 k3 where s3: "(s3, k3) \<in> S" "agrees c3 (s3, k3)" by force
      from i2 c(2) obtain s4 k4 where s4: "(s4, k4) \<in> set (selections opd')" "agrees c4 (s4, k4)"
        by force
      have "agrees x (s3 @ s4, fadd k3 k4)" using agrees_product [OF s3(2) s4(2) c(3) c(4)] .
      then show "\<exists>sk\<in>?S. agrees x sk" using s3(1) s4(1) by blast
    qed
    have "\<exists>sk\<in>?S. \<exists>sk2\<in>set (selections_AND (snd sk) rest'). agrees cl (fst sk @ fst sk2, snd sk2)"
      using "8.IH"(2) [OF r1 refl refl po [symmetric] refl, rule_format, OF r2 bspec [OF ih] cl] .
    then obtain sk sel2 k2 where s: "sk \<in> ?S" "(sel2, k2) \<in> set (selections_AND (snd sk) rest')"
      "agrees cl (fst sk @ sel2, k2)"
      by force
    from s(1) obtain s3 k3 s4 k4 where ss: "sk = (s3 @ s4, fadd k3 k4)" "(s3, k3) \<in> S"
      "(s4, k4) \<in> set (selections opd')" by blast
    have "(sel2, k2) \<in> set (selections_AND (fadd k3 k4) rest')" using s(2) ss(1) by simp
    then have "(s4 @ sel2, k2) \<in> set (selections_AND k3 ops')" using ss(3) ops' by force
    moreover have "agrees cl (s3 @ (s4 @ sel2), k2)" using s(3) ss(1) by simp
    ultimately show "\<exists>sk\<in>S. \<exists>sk2\<in>set (selections_AND (snd sk) ops').
        agrees cl (fst sk @ fst sk2, snd sk2)"
      using ss(2) by force
  qed
next
  case (9 c ct)
  then show ?case by auto
next
  case (10 opd rest c ct)
  show ?case
  proof (intro allI impI ballI)
    fix ops' c' ct' S cl
    assume a: "build_OR (opd # rest) c ct = Inr (ops', c', ct')"
      and inv: "\<forall>cl\<in>set c. \<exists>sk\<in>S. agrees cl sk" and cl: "cl \<in> set c'"
    then obtain opd' c2 ct1 where r1: "build_clause (Some opd) ct = Inr (opd', c2, ct1)"
      by (auto split: sum.splits)
    from a r1 have ne: "c \<noteq> []" "c2 \<noteq> []" by (auto split: if_splits)
    from a r1 ne obtain rest' where r2: "build_OR rest (c @ c2) ct1 = Inr (rest', c', ct')"
      and ops': "ops' = opd' # rest'"
      by (auto split: sum.splits)
    have i2: "\<forall>cl\<in>set c2. \<exists>sk\<in>set (selections opd'). agrees cl sk"
      using "10.IH"(1) [rule_format, OF r1] by blast
    have ih: "\<forall>cl\<in>set (c @ c2). \<exists>sk\<in>S \<union> set (selections opd'). agrees cl sk"
      using inv i2 by auto
    have "\<exists>sk\<in>(S \<union> set (selections opd')) \<union> set (selections_OR rest'). agrees cl sk"
      using "10.IH"(2) [OF r1 refl refl ne, rule_format, OF r2 bspec [OF ih] cl] .
    then show "\<exists>sk\<in>S \<union> set (selections_OR ops'). agrees cl sk" using ops' by auto
  qed
qed simp_all

section \<open>Clause expansion: what it writes into the tree\<close>

lemma numbered_append:
  "numbered p (xs @ ys) \<longleftrightarrow> numbered p xs \<and> numbered (p + int (length xs)) ys"
  by (induction xs arbitrary: p) (auto simp: algebra_simps)

lemma numbered_pos:
  "numbered p xs \<Longrightarrow> map e_pos xs = map (\<lambda>i. p + int i) [0..<length xs]"
proof (induction xs arbitrary: p)
  case Nil
  then show ?case by simp
next
  case (Cons e es)
  then have "map e_pos es = map (\<lambda>i. (p + 1) + int i) [0..<length es]" by simp
  also have "\<dots> = map (\<lambda>i. p + int i) (map Suc [0..<length es])" by (simp add: algebra_simps)
  finally show ?case using Cons.prems by (simp add: upt_conv_Cons map_Suc_upt del: upt_Suc)
qed

lemma build_clause_tree_aux:
  "\<forall>E E' cls ct'. eo = Some E \<longrightarrow> build_clause eo ct = Inr (E', cls, ct') \<longrightarrow>
     clear_pos E' = clear_pos E \<and> numbered (exp_pos ct) (leaves E')
     \<and> exp_pos ct' = exp_pos ct + int (length (leaves E'))"
  "\<forall>ops' c' ct'. build_AND ops c ct = Inr (ops', c', ct') \<longrightarrow>
     map clear_pos ops' = map clear_pos ops \<and> numbered (exp_pos ct) (concat (map leaves ops'))
     \<and> exp_pos ct' = exp_pos ct + int (length (concat (map leaves ops')))"
  "\<forall>ops' c' ct'. build_OR ops2 c2 ct2 = Inr (ops', c', ct') \<longrightarrow>
     map clear_pos ops' = map clear_pos ops2 \<and> numbered (exp_pos ct2) (concat (map leaves ops'))
     \<and> exp_pos ct' = exp_pos ct2 + int (length (concat (map leaves ops')))"
proof (induction eo ct and ops c ct and ops2 c2 ct2 rule: build_clause_build_AND_build_OR.induct)
  case (2 co p d m cd fw ops ct)
  show ?case
  proof (intro allI impI)
    fix E E' cls ct'
    assume E: "Some (Exp_struct AND_type co p d m cd fw ops) = Some E"
      and a: "build_clause (Some (Exp_struct AND_type co p d m cd fw ops)) ct = Inr (E', cls, ct')"
    from a obtain ops' c where r: "build_AND ops [\<lparr>cl_c = [], cl_totcost = 0\<rparr>] ct = Inr (ops', c, ct')"
      and E': "E' = Exp_struct AND_type co p d m cd fw ops'"
      by (auto split: sum.splits)
    have h: "map clear_pos ops' = map clear_pos ops"
      "numbered (exp_pos ct) (concat (map leaves ops'))"
      "exp_pos ct' = exp_pos ct + int (length (concat (map leaves ops')))"
      using "2.IH" [rule_format, OF r] by simp_all
    show "clear_pos E' = clear_pos E \<and> numbered (exp_pos ct) (leaves E')
     \<and> exp_pos ct' = exp_pos ct + int (length (leaves E'))"
      using h E E' by auto
  qed
next
  case (4 co p d m cd fw operand_first rest ct)
  show ?case
  proof (intro allI impI)
    fix E E' cls ct'
    assume E: "Some (Exp_struct OR_type co p d m cd fw (operand_first # rest)) = Some E"
      and a: "build_clause (Some (Exp_struct OR_type co p d m cd fw (operand_first # rest))) ct
                 = Inr (E', cls, ct')"
    from a obtain opd' c ct1 where r1: "build_clause (Some operand_first) ct = Inr (opd', c, ct1)"
      by (auto split: sum.splits)
    from a r1 obtain rest' c' where r2: "build_OR rest c ct1 = Inr (rest', c', ct')"
      and E': "E' = Exp_struct OR_type co p d m cd fw (opd' # rest')"
      by (auto split: sum.splits)
    have h1: "clear_pos opd' = clear_pos operand_first" "numbered (exp_pos ct) (leaves opd')"
      "exp_pos ct1 = exp_pos ct + int (length (leaves opd'))"
      using "4.IH"(1) [rule_format, OF refl r1] by simp_all
    have h2: "map clear_pos rest' = map clear_pos rest"
      "numbered (exp_pos ct1) (concat (map leaves rest'))"
      "exp_pos ct' = exp_pos ct1 + int (length (concat (map leaves rest')))"
      using "4.IH"(2) [OF r1 refl refl, rule_format, OF r2] by simp_all
    show "clear_pos E' = clear_pos E \<and> numbered (exp_pos ct) (leaves E')
     \<and> exp_pos ct' = exp_pos ct + int (length (leaves E'))"
      using h1 h2 E E' by (auto simp: numbered_append)
  qed
next
  case (5 co p d m cd fw ops ct)
  then show ?case by (auto simp: build_terminal_def Let_def)
next
  case (8 opd rest c ct)
  show ?case
  proof (intro allI impI)
    fix ops' c' ct'
    assume a: "build_AND (opd # rest) c ct = Inr (ops', c', ct')"
    then obtain opd' c2 ct1 where r1: "build_clause (Some opd) ct = Inr (opd', c2, ct1)"
      by (auto split: sum.splits)
    obtain c_head tp where po: "product_outer c c2 [] (Tconnector_pool ct1) = (c_head, tp)"
      by fastforce
    from a r1 po obtain rest' where
      r2: "build_AND rest c_head (ct1\<lparr>Tconnector_pool := tp\<rparr>) = Inr (rest', c', ct')"
      and ops': "ops' = opd' # rest'"
      by (auto split: sum.splits)
    have h1: "clear_pos opd' = clear_pos opd" "numbered (exp_pos ct) (leaves opd')"
      "exp_pos ct1 = exp_pos ct + int (length (leaves opd'))"
      using "8.IH"(1) [rule_format, OF refl r1] by simp_all
    have h2: "map clear_pos rest' = map clear_pos rest"
      "numbered (exp_pos ct1) (concat (map leaves rest'))"
      "exp_pos ct' = exp_pos ct1 + int (length (concat (map leaves rest')))"
      using "8.IH"(2) [OF r1 refl refl po [symmetric] refl, rule_format, OF r2] by simp_all
    show "map clear_pos ops' = map clear_pos (opd # rest)
       \<and> numbered (exp_pos ct) (concat (map leaves ops'))
       \<and> exp_pos ct' = exp_pos ct + int (length (concat (map leaves ops')))"
      using h1 h2 ops' by (auto simp: numbered_append)
  qed
next
  case (10 opd rest c ct)
  show ?case
  proof (intro allI impI)
    fix ops' c' ct'
    assume a: "build_OR (opd # rest) c ct = Inr (ops', c', ct')"
    then obtain opd' c2 ct1 where r1: "build_clause (Some opd) ct = Inr (opd', c2, ct1)"
      by (auto split: sum.splits)
    from a r1 have ne: "c \<noteq> []" "c2 \<noteq> []" by (auto split: if_splits)
    from a r1 ne obtain rest' where r2: "build_OR rest (c @ c2) ct1 = Inr (rest', c', ct')"
      and ops': "ops' = opd' # rest'"
      by (auto split: sum.splits)
    have h1: "clear_pos opd' = clear_pos opd" "numbered (exp_pos ct) (leaves opd')"
      "exp_pos ct1 = exp_pos ct + int (length (leaves opd'))"
      using "10.IH"(1) [rule_format, OF refl r1] by simp_all
    have h2: "map clear_pos rest' = map clear_pos rest"
      "numbered (exp_pos ct1) (concat (map leaves rest'))"
      "exp_pos ct' = exp_pos ct1 + int (length (concat (map leaves rest')))"
      using "10.IH"(2) [OF r1 refl refl ne, rule_format, OF r2] by simp_all
    show "map clear_pos ops' = map clear_pos (opd # rest)
       \<and> numbered (exp_pos ct) (concat (map leaves ops'))
       \<and> exp_pos ct' = exp_pos ct + int (length (concat (map leaves ops')))"
      using h1 h2 ops' by (auto simp: numbered_append)
  qed
qed simp_all

lemma build_clause_tree:
  assumes "build_clause (Some E) ct = Inr (E', cls, ct')"
  shows "clear_pos E' = clear_pos E" and "numbered (exp_pos ct) (leaves E')"
    and "exp_pos ct' = exp_pos ct + int (length (leaves E'))"
  using build_clause_tree_aux(1) [rule_format, OF refl assms] by simp_all

lemma selections_leaves_aux:
  "\<forall>sk\<in>set (selections E). subseq (filter is_connector (fst sk)) (leaves E)"
  "\<forall>sk\<in>set (selections_AND k ops). subseq (filter is_connector (fst sk)) (concat (map leaves ops))"
  "\<forall>sk\<in>set (selections_OR ops2). subseq (filter is_connector (fst sk)) (concat (map leaves ops2))"
proof (induction E and k ops and ops2 rule: selections_selections_AND_selections_OR.induct)
  case (1 ty co p d m cd fw ops)
  then show ?case by (cases ty) (auto simp: is_connector_def)
next
  case (2 k)
  then show ?case by simp
next
  case (3 k opd rest)
  show ?case
  proof
    fix sk assume "sk \<in> set (selections_AND k (opd # rest))"
    then obtain x kx y ky where x: "(x, kx) \<in> set (selections opd)"
      and y: "(y, ky) \<in> set (selections_AND (fadd k kx) rest)" and sk: "sk = (x @ y, ky)"
      by auto
    have "subseq (filter is_connector x) (leaves opd)" using "3.IH"(1) x by force
    moreover have "subseq (filter is_connector y) (concat (map leaves rest))"
      using "3.IH"(2) [OF x refl] y by force
    ultimately show "subseq (filter is_connector (fst sk)) (concat (map leaves (opd # rest)))"
      using sk by (auto intro: list_emb_append_mono)
  qed
next
  case 4
  then show ?case by simp
next
  case (5 opd rest)
  then show ?case by (auto intro: list_emb_prefix list_emb_append2)
qed

lemma numbered_distinct: "numbered p xs \<Longrightarrow> distinct (map e_pos xs)"
proof -
  assume "numbered p xs"
  then have "map e_pos xs = map (\<lambda>i. p + int i) [0..<length xs]" by (rule numbered_pos)
  moreover have "distinct (map (\<lambda>i. p + int i) [0..<length xs])"
    by (simp add: distinct_map inj_on_def)
  ultimately show ?thesis by simp
qed

lemma build_clause_selection:
  "build_clause (Some E) ct = Inr (E', cls, ct') \<Longrightarrow> cl \<in> set cls \<Longrightarrow>
   \<exists>sk\<in>set (selections E'). agrees cl sk"
  using build_clause_selection_aux(1) by blast

text \<open>
  C4.  The comment on \<open>build_clause\<close> says of the tree: ``Does not change e''.  The code
  does not keep to it: \<open>build_terminal\<close> stores the position counter in the \<open>pos\<close> field of
  the node (\<open>c->e->pos = ct->exp_pos++\<close>).  For \<open>A- & B+\<close> with all \<open>pos\<close> fields 0 and the
  counter at 0, as \<open>build_disjuncts_for_exp\<close> starts it, the tree after the call is not
  the tree before: the \<open>pos\<close> field of \<open>B+\<close> holds 1.
\<close>

theorem build_clause_changes_pos:
  "build_clause (Some exp_A_and_B) (context0 0) =
     Inr (and_exp 0 [Exp_struct CONNECTOR_type 0 0 (CHR ''-'') False 1 0 [],
                     Exp_struct CONNECTOR_type 0 1 (CHR ''+'') False 2 0 [] ],
          [\<lparr>cl_c = [\<lparr>t_addr = 3, t_e = Exp_struct CONNECTOR_type 0 1 (CHR ''+'') False 2 0 [],
                       t_tracon = None\<rparr>,
                     \<lparr>t_addr = 1, t_e = Exp_struct CONNECTOR_type 0 0 (CHR ''-'') False 1 0 [],
                       t_tracon = None\<rparr>],
             cl_totcost = 0\<rparr>],
          \<lparr>Tconnector_pool = 4, cost_cutoff = 0, exp_pos = 2\<rparr>) \<and>
   and_exp 0 [Exp_struct CONNECTOR_type 0 0 (CHR ''-'') False 1 0 [],
              Exp_struct CONNECTOR_type 0 1 (CHR ''+'') False 2 0 [] ] \<noteq> exp_A_and_B \<and>
   map e_pos (e_operands exp_A_and_B) = [0, 0]"
  by (simp add: exp_A_and_B_def and_exp_def connector_exp_def context0_def build_terminal_def
      Let_def add_cost_def)

text \<open>What the call leaves as it was: every field of every node but the \<open>pos\<close> field of
  the CONNECTOR nodes, which afterwards hold, from left to right, the consecutive
  position ids starting at the context's counter.\<close>

lemma build_clause_changes_only_pos:
  "build_clause (Some E) ct = Inr (E', cls, ct') \<Longrightarrow>
   clear_pos E' = clear_pos E \<and>
   map e_pos (leaves E') = map (\<lambda>i. exp_pos ct + int i) [0..<length (leaves E')]"
  using build_clause_tree(1,2) [of E ct E' cls ct'] numbered_pos by blast

lemma build_clause_changes_only_pos_example:
  "\<exists>E' cls ct'. build_clause (Some exp_with_costs) (context0 0) = Inr (E', cls, ct') \<and>
     clear_pos E' = clear_pos exp_with_costs \<and> map e_pos (leaves E') = [0, 1, 2]"
proof -
  have k: "known_types exp_with_costs" and o: "or_nonempty exp_with_costs"
    by (simp_all add: exp_with_costs_def and_exp_def or_exp_def connector_exp_def)
  obtain E' cls ct' where r: "build_clause (Some exp_with_costs) (context0 0) = Inr (E', cls, ct')"
    using build_clause_total [OF k o] by blast
  have c: "clear_pos E' = clear_pos exp_with_costs"
    and p: "map e_pos (leaves E') = map (\<lambda>i. exp_pos (context0 0) + int i) [0..<length (leaves E')]"
    using build_clause_changes_only_pos [OF r] by simp_all
  have "length (leaves (clear_pos E')) = 3"
    unfolding c by (simp add: exp_with_costs_def and_exp_def or_exp_def connector_exp_def)
  moreover have "length (leaves (clear_pos X)) = length (leaves X)" for X
    by (induction X rule: leaves.induct) (auto split: Exp_type.splits simp: length_concat comp_def cong: map_cong)
  ultimately have "length (leaves E') = 3" by simp
  then have "map e_pos (leaves E') = [0, 1, 2]"
    using p by (simp add: context0_def upt_conv_Cons)
  then show ?thesis using r c by (intro exI conjI)
qed

text \<open>
  C2 (as amended).  Within every clause produced by \<open>build_clause\<close> the temporary
  half-link entries occur in the reverse of the left-to-right order of the
  CONNECTOR leaves they point to: read from its last cell to its first, the clause
  is a subsequence of the leaves of the tree, which carry pairwise distinct
  position ids.
\<close>

theorem build_clause_reverse_order:
  "build_clause (Some E) ct = Inr (E', cls, ct') \<Longrightarrow> cl \<in> set cls \<Longrightarrow>
   subseq (rev (clause_exps cl)) (leaves E') \<and> distinct (map e_pos (leaves E'))"
proof -
  assume r: "build_clause (Some E) ct = Inr (E', cls, ct')" and cl: "cl \<in> set cls"
  from build_clause_selection [OF r cl] obtain sk where
    s: "sk \<in> set (selections E')" "agrees cl sk" by blast
  have "subseq (filter is_connector (fst sk)) (leaves E')"
    using selections_leaves_aux(1) s(1) by blast
  then have "subseq (rev (clause_exps cl)) (leaves E')"
    using s(2) by (simp add: agrees_def)
  moreover have "distinct (map e_pos (leaves E'))"
    using build_clause_tree(2) [OF r] by (rule numbered_distinct)
  ultimately show ?thesis by simp
qed

theorem build_clause_reverse_order_witness:
  "\<exists>E' cls ct' cl. build_clause (Some exp_with_costs) (context0 0) = Inr (E', cls, ct') \<and>
     cl \<in> set cls \<and> length cls = 2 \<and>
     subseq (rev (clause_exps cl)) (leaves E') \<and> distinct (map e_pos (leaves E'))"
proof -
  have k: "known_types exp_with_costs" and o: "or_nonempty exp_with_costs"
    by (simp_all add: exp_with_costs_def and_exp_def or_exp_def connector_exp_def)
  obtain E' cls ct' where r: "build_clause (Some exp_with_costs) (context0 0) = Inr (E', cls, ct')"
    using build_clause_total [OF k o] by blast
  have l: "length cls = 2"
    using build_clause_count [OF r]
    by (simp add: exp_with_costs_def and_exp_def or_exp_def connector_exp_def)
  then have m: "hd cls \<in> set cls" by (cases cls) auto
  show ?thesis using build_clause_reverse_order [OF r m] r m l by blast
qed

text \<open>The claim as stated fails for \<open>A- & B+\<close>: the one clause holds the cell of
  \<open>B+\<close> (position 1) before the cell of \<open>A-\<close> (position 0).\<close>

theorem build_clause_order_counterexample:
  "build_clause (Some exp_A_and_B) (context0 0) =
     Inr (and_exp 0 [Exp_struct CONNECTOR_type 0 0 (CHR ''-'') False 1 0 [],
                     Exp_struct CONNECTOR_type 0 1 (CHR ''+'') False 2 0 [] ],
          [\<lparr>cl_c = [\<lparr>t_addr = 3, t_e = Exp_struct CONNECTOR_type 0 1 (CHR ''+'') False 2 0 [],
                       t_tracon = None\<rparr>,
                     \<lparr>t_addr = 1, t_e = Exp_struct CONNECTOR_type 0 0 (CHR ''-'') False 1 0 [],
                       t_tracon = None\<rparr>],
             cl_totcost = 0\<rparr>],
          \<lparr>Tconnector_pool = 4, cost_cutoff = 0, exp_pos = 2\<rparr>) \<and>
   leaves (and_exp 0 [Exp_struct CONNECTOR_type 0 0 (CHR ''-'') False 1 0 [],
                      Exp_struct CONNECTOR_type 0 1 (CHR ''+'') False 2 0 [] ])
     = [Exp_struct CONNECTOR_type 0 0 (CHR ''-'') False 1 0 [],
        Exp_struct CONNECTOR_type 0 1 (CHR ''+'') False 2 0 [] ] \<and>
   \<not> subseq [Exp_struct CONNECTOR_type 0 1 (CHR ''+'') False 2 0 [],
              Exp_struct CONNECTOR_type 0 0 (CHR ''-'') False 1 0 [] ]
             [Exp_struct CONNECTOR_type 0 0 (CHR ''-'') False 1 0 [],
              Exp_struct CONNECTOR_type 0 1 (CHR ''+'') False 2 0 [] ]"
  by (simp add: exp_A_and_B_def and_exp_def connector_exp_def context0_def build_terminal_def
      Let_def add_cost_def)

text \<open>
  C6 (as amended).  For every clause produced by \<open>build_clause\<close> there is a selection of
  the tree (the node itself, every operand of an AND node, one operand of an OR
  node) whose CONNECTOR nodes are exactly the nodes the clause's cells point to, and
  the clause's total cost is the total of that selection: the costs of its nodes,
  each entering once, added as \<open>float\<close>s in the order of the expansion (for an AND node
  the totals of the operands from left to right, starting from \<open>0.0\<close>, then the cost of
  the node; for an OR node the total of the operand, then the cost of the node), every
  addition rounding to the nearest \<open>float\<close>.
\<close>

theorem build_clause_cost:
  "build_clause (Some E) ct = Inr (E', cls, ct') \<Longrightarrow> cl \<in> set cls \<Longrightarrow>
   \<exists>(sel, k)\<in>set (selections E').
     rev (clause_exps cl) = filter is_connector sel \<and> cl_totcost cl = k"
proof -
  assume r: "build_clause (Some E) ct = Inr (E', cls, ct')" and cl: "cl \<in> set cls"
  from build_clause_selection [OF r cl] obtain sk where
    s: "sk \<in> set (selections E')" "agrees cl sk" by blast
  then show ?thesis by (cases sk) (auto simp: agrees_def)
qed

theorem build_clause_cost_witness:
  "\<exists>E' cl1 cl2 ct'. build_clause (Some exp_with_costs) (context0 0) = Inr (E', [cl1, cl2], ct') \<and>
     cl2 \<in> set [cl1, cl2] \<and> cl_totcost cl2 = Finite False (15 / 4) \<and>
     (\<exists>(sel, k)\<in>set (selections E').
        rev (clause_exps cl2) = filter is_connector sel \<and> cl_totcost cl2 = k)"
proof -
  let ?A = "Exp_struct CONNECTOR_type (flt (1 / 2)) 0 (CHR ''-'') False 1 0 []"
  let ?B = "Exp_struct CONNECTOR_type (flt (1 / 4)) 1 (CHR ''+'') False 2 0 []"
  let ?C = "Exp_struct CONNECTOR_type (flt 4) 2 (CHR ''+'') False 3 0 []"
  let ?E = "and_exp (flt 1) [?A, or_exp (flt 2) [?B, ?C] ]"
  let ?cl1 = "\<lparr>cl_c = [\<lparr>t_addr = 5, t_e = ?C, t_tracon = None\<rparr>,
                        \<lparr>t_addr = 1, t_e = ?A, t_tracon = None\<rparr>], cl_totcost = Finite False (15 / 2)\<rparr>"
  let ?cl2 = "\<lparr>cl_c = [\<lparr>t_addr = 4, t_e = ?B, t_tracon = None\<rparr>,
                        \<lparr>t_addr = 1, t_e = ?A, t_tracon = None\<rparr>], cl_totcost = Finite False (15 / 4)\<rparr>"
  have r: "build_clause (Some exp_with_costs) (context0 0) =
             Inr (?E, [?cl1, ?cl2], \<lparr>Tconnector_pool = 6, cost_cutoff = 0, exp_pos = 3\<rparr>)"
    by code_simp
  have m: "?cl2 \<in> set [?cl1, ?cl2]" by simp
  show ?thesis using build_clause_cost [OF r m] r m by fastforce
qed

text \<open>The claim as stated fails for \<open>[A+]\<close> with the cost \<open>2\<^sup>2\<^sup>4\<close> on the connector and the
  cost 1 on the AND node around it: the \<open>float\<close> nearest to 16777217 is 16777216, so
  the one clause has the total 16777216 and the cost of the AND node is lost.\<close>

theorem build_clause_cost_counterexample:
  "build_clause (Some exp_absorbed) (context0 0) =
     Inr (Exp_struct AND_type (Finite False 1) 0 (CHR 0x00) False 0 0
            [Exp_struct CONNECTOR_type (Finite False 16777216) 0 (CHR ''+'') False 1 0 [] ],
          [\<lparr>cl_c = [\<lparr>t_addr = 1,
                       t_e = Exp_struct CONNECTOR_type (Finite False 16777216) 0 (CHR ''+'') False 1 0 [],
                       t_tracon = None\<rparr>],
             cl_totcost = Finite False 16777216\<rparr>],
          \<lparr>Tconnector_pool = 2, cost_cutoff = 0, exp_pos = 1\<rparr>) \<and>
   (16777216 :: rat) \<noteq> 16777216 + 1"
  by code_simp

section \<open>Chains and \<open>set_dist_fields\<close>\<close>

lemma chain_unique: "chain h c xs \<Longrightarrow> chain h c ys \<Longrightarrow> xs = ys"
proof (induction xs arbitrary: c ys)
  case Nil
  then show ?case by (cases ys) auto
next
  case (Cons a as)
  then show ?case by (cases ys) auto
qed

lemma chain_same_links:
  "\<forall>b. c_next (h1 b) = c_next (h2 b) \<Longrightarrow> chain h1 c xs = chain h2 c xs"
  by (induction xs arbitrary: c) auto

lemma chain_suffix:
  "chain h c xs \<Longrightarrow> a \<in> set xs \<Longrightarrow> chain h (Some a) (dropWhile (\<lambda>x. x \<noteq> a) xs)"
proof (induction xs arbitrary: c)
  case Nil
  then show ?case by simp
next
  case (Cons x xs)
  show ?case
  proof (cases "x = a")
    case True
    then show ?thesis using Cons.prems by simp
  next
    case False
    then have "a \<in> set xs" using Cons.prems by simp
    moreover have "chain h (c_next (h x)) xs" using Cons.prems by simp
    ultimately show ?thesis using Cons.IH False by simp
  qed
qed

lemma chain_notin_tail: "chain h (Some a) (a # as) \<Longrightarrow> a \<notin> set as"
proof
  assume c: "chain h (Some a) (a # as)" and m: "a \<in> set as"
  have "chain h (c_next (h a)) as" using c by simp
  from chain_suffix [OF this m] have "chain h (Some a) (dropWhile (\<lambda>x. x \<noteq> a) as)" .
  with c have "a # as = dropWhile (\<lambda>x. x \<noteq> a) as" by (rule chain_unique)
  then have "length (a # as) = length (dropWhile (\<lambda>x. x \<noteq> a) as)" by simp
  moreover have "length (dropWhile (\<lambda>x. x \<noteq> a) as) \<le> length as" by (rule length_dropWhile_le)
  ultimately show False by simp
qed

lemma chain_distinct: "chain h c xs \<Longrightarrow> distinct xs"
proof (induction xs arbitrary: c)
  case Nil
  then show ?case by simp
next
  case (Cons a as)
  then have "a \<notin> set as" using chain_notin_tail [of h a as] by simp
  moreover have "distinct as" using Cons.IH [of "c_next (h a)"] Cons.prems by simp
  ultimately show ?case by simp
qed

lemma links_to_end_nth:
  "distinct xs \<Longrightarrow> k < length xs \<Longrightarrow> links_to_end xs (xs ! k) = length xs - k"
proof (induction xs arbitrary: k)
  case Nil
  then show ?case by simp
next
  case (Cons x xs)
  show ?case
  proof (cases k)
    case 0
    then show ?thesis by (simp add: links_to_end_def)
  next
    case (Suc j)
    then have "xs ! j \<noteq> x" using Cons.prems by auto
    then show ?thesis using Cons Suc by (simp add: links_to_end_def)
  qed
qed

lemma links_to_end_pos: "a \<in> set xs \<Longrightarrow> 0 < links_to_end xs a"
  by (induction xs) (auto simp: links_to_end_def)

lemma set_dist_fields_chain:
  "chain h c xs \<Longrightarrow>
   set_dist_fields c w delta h = Some (int w + delta * int (length xs), dist_heap w delta xs h)"
proof (induction xs arbitrary: c)
  case Nil
  then show ?case by (simp add: set_dist_fields.simps dist_heap_def)
next
  case (Cons a as)
  have c: "c = Some a" and t: "chain h (c_next (h a)) as" using Cons.prems by simp_all
  have n: "a \<notin> set as" using chain_notin_tail [of h a as] Cons.prems by simp
  have ih: "set_dist_fields (c_next (h a)) w delta h
              = Some (int w + delta * int (length as), dist_heap w delta as h)"
    using Cons.IH [OF t] .
  have "(dist_heap w delta as h)(a := (dist_heap w delta as h a)
            \<lparr>c_nearest_word := int w + delta * int (length as) + delta\<rparr>)
          = dist_heap w delta (a # as) h"
    using n by (auto simp: dist_heap_def links_to_end_def fun_eq_iff algebra_simps)
  then show ?case
    using c ih by (subst set_dist_fields.simps) (simp add: algebra_simps)
qed

lemma dist_heap_links [simp]: "c_next (dist_heap w delta xs h b) = c_next (h b)"
  by (simp add: dist_heap_def)

lemma dist_heap_shallow [simp]: "c_shallow (dist_heap w delta xs h b) = c_shallow (h b)"
  by (simp add: dist_heap_def)

lemma chain_drop: "chain h c xs \<Longrightarrow> k < length xs \<Longrightarrow> chain h (Some (xs ! k)) (drop k xs)"
proof (induction xs arbitrary: c k)
  case Nil
  then show ?case by simp
next
  case (Cons a as)
  then show ?case by (cases k) auto
qed

lemma prep_inv_dist:
  assumes inv: "prep_inv h0 own S H h" and ch: "chain h0 c xs"
    and ow: "\<forall>a\<in>set xs. own a = (w, dir)" and delta: "delta = (if dir then 1 else - 1)"
  shows "prep_inv h0 own (S \<union> set xs) H (dist_heap w delta xs h)"
proof -
  have "expected own h0 b (c_nearest_word (dist_heap w delta xs h b))" if b: "b \<in> set xs" for b
  proof -
    have "chain h0 (Some b) (dropWhile (\<lambda>x. x \<noteq> b) xs)" using chain_suffix [OF ch b] .
    moreover have "own b = (w, dir)" using ow b by simp
    ultimately show ?thesis
      using b delta unfolding expected_def dist_heap_def links_to_end_def by auto
  qed
  moreover have "expected own h0 b (c_nearest_word (dist_heap w delta xs h b))"
    if "b \<in> S" "b \<notin> set xs" for b
    using that inv by (simp add: prep_inv_def dist_heap_def)
  ultimately show ?thesis
    using inv unfolding prep_inv_def by auto
qed

lemma prep_inv_mark:
  "prep_inv h0 own S H h \<Longrightarrow>
   prep_inv h0 own S (H \<union> (case c of None \<Rightarrow> {} | Some a \<Rightarrow> {a})) (mark_shallow c h)"
  by (cases c) (auto simp: prep_inv_def mark_shallow_def)

lemma prep_inv_chain: "prep_inv h0 own S H h \<Longrightarrow> chain h c xs = chain h0 c xs"
  by (rule chain_same_links) (simp add: prep_inv_def)

lemma too_long_inv:
  assumes inv: "prep_inv h0 own S H h"
    and l: "chain h0 (d_left d) xs" "\<forall>a\<in>set xs. own a = (w, False)"
    and r: "chain h0 (d_right d) ys" "\<forall>a\<in>set ys. own a = (w, True)"
  shows "\<exists>skip h' S'. too_long w len d h = Some (skip, h') \<and> prep_inv h0 own S' H h' \<and> S \<subseteq> S' \<and>
           (\<not> skip \<longrightarrow> set xs \<subseteq> S' \<and> set ys \<subseteq> S' \<and>
              0 \<le> int w - int (length xs) \<and> int w + int (length ys) < int len)"
proof -
  let ?h1 = "dist_heap w (- 1) xs h"
  have c1: "chain h (d_left d) xs" using l(1) prep_inv_chain [OF inv] by simp
  have s1: "set_dist_fields (d_left d) w (- 1) h = Some (int w + (- 1) * int (length xs), ?h1)"
    using set_dist_fields_chain [OF c1] .
  have i1: "prep_inv h0 own (S \<union> set xs) H ?h1"
    using prep_inv_dist [OF inv l(1) l(2)] by simp
  show ?thesis
  proof (cases "int w - int (length xs) < 0")
    case True
    then have "too_long w len d h = Some (True, ?h1)"
      using s1 by (simp add: too_long_def)
    then show ?thesis using i1 by blast
  next
    case False
    let ?h2 = "dist_heap w 1 ys ?h1"
    have c2: "chain ?h1 (d_right d) ys" using r(1) prep_inv_chain [OF i1] by simp
    have s2: "set_dist_fields (d_right d) w 1 ?h1 = Some (int w + 1 * int (length ys), ?h2)"
      using set_dist_fields_chain [OF c2] .
    have i2: "prep_inv h0 own (S \<union> set xs \<union> set ys) H ?h2"
      using prep_inv_dist [OF i1 r(1) r(2)] by simp
    have "too_long w len d h = Some (int w + int (length ys) \<ge> int len, ?h2)"
      using s1 s2 False by (simp add: too_long_def)
    then show ?thesis using i2 False by (intro exI [of _ "int w + int (length ys) \<ge> int len"] exI [of _ ?h2] exI [of _ "S \<union> set xs \<union> set ys"]) auto
  qed
qed

lemma kept_ok_mono: "kept_ok h0 own S w len d \<Longrightarrow> S \<subseteq> S' \<Longrightarrow> kept_ok h0 own S' w len d"
  unfolding kept_ok_def by blast

lemma heads_Cons:
  "heads (d # ds) = (case d_left d of None \<Rightarrow> {} | Some a \<Rightarrow> {a})
                  \<union> (case d_right d of None \<Rightarrow> {} | Some a \<Rightarrow> {a}) \<union> heads ds"
  by (auto simp: heads_def split: option.splits)

lemma setup_word_inv:
  assumes "prep_inv h0 own S (G \<union> heads head) h"
    and "wf_word h0 own w ds"
    and "\<forall>d\<in>set head. kept_ok h0 own S w len d"
  shows "\<exists>head' h' S'. setup_word w len ds head h = Some (head', h') \<and>
           prep_inv h0 own S' (G \<union> heads head') h' \<and> S \<subseteq> S' \<and>
           (\<forall>d\<in>set head'. kept_ok h0 own S' w len d)"
  using assms
proof (induction ds arbitrary: head h S)
  case Nil
  then show ?case by auto
next
  case (Cons d xd)
  from Cons.prems(2) obtain xs ys where
    l: "chain h0 (d_left d) xs" "\<forall>a\<in>set xs. own a = (w, False)" and
    r: "chain h0 (d_right d) ys" "\<forall>a\<in>set ys. own a = (w, True)"
    by (auto simp: wf_word_def owned_def list_all_iff)
  have wf: "wf_word h0 own w xd" using Cons.prems(2) by (simp add: wf_word_def)
  from too_long_inv [OF Cons.prems(1) l r, of len] obtain skip h1 S1 where
    t: "too_long w len d h = Some (skip, h1)" and i1: "prep_inv h0 own S1 (G \<union> heads head) h1"
    and s1: "S \<subseteq> S1"
    and k: "\<not> skip \<longrightarrow> set xs \<subseteq> S1 \<and> set ys \<subseteq> S1 \<and>
              0 \<le> int w - int (length xs) \<and> int w + int (length ys) < int len"
    by blast
  have k1: "\<forall>d\<in>set head. kept_ok h0 own S1 w len d"
    using Cons.prems(3) s1 kept_ok_mono by blast
  show ?case
  proof (cases skip)
    case True
    from Cons.IH [OF i1 wf k1] obtain head' h' S' where
      "setup_word w len xd head h1 = Some (head', h')"
      "prep_inv h0 own S' (G \<union> heads head') h'" "S1 \<subseteq> S'"
      "\<forall>d\<in>set head'. kept_ok h0 own S' w len d" by blast
    then show ?thesis using t True s1 by (intro exI [of _ head'] exI [of _ h'] exI [of _ S']) auto
  next
    case False
    let ?h2 = "mark_shallow (d_right d) (mark_shallow (d_left d) h1)"
    have i2: "prep_inv h0 own S1 (G \<union> heads (d # head)) ?h2"
      using prep_inv_mark [OF prep_inv_mark [OF i1, of "d_left d"], of "d_right d"]
      by (simp add: heads_Cons Un_ac)
    have "kept_ok h0 own S1 w len d"
      using l r k False unfolding kept_ok_def by blast
    then have k2: "\<forall>d\<in>set (d # head). kept_ok h0 own S1 w len d" using k1 by simp
    from Cons.IH [OF i2 wf k2] obtain head' h' S' where
      "setup_word w len xd (d # head) ?h2 = Some (head', h')"
      "prep_inv h0 own S' (G \<union> heads head') h'" "S1 \<subseteq> S'"
      "\<forall>d\<in>set head'. kept_ok h0 own S' w len d" by blast
    then show ?thesis using t False s1 by (intro exI [of _ head'] exI [of _ h'] exI [of _ S']) auto
  qed
qed

lemma heads_Nil [simp]: "heads [] = {}"
  by (simp add: heads_def)

lemma setup_words_inv:
  assumes "prep_inv h0 own S G h"
    and "\<forall>i<length rest. wf_word h0 own (w + i) (rest ! i)"
  shows "\<exists>hs h' S'. setup_words w len rest h = Some (hs, h') \<and> length hs = length rest \<and>
           prep_inv h0 own S' (G \<union> (\<Union>ds\<in>set hs. heads ds)) h' \<and> S \<subseteq> S' \<and>
           (\<forall>i<length hs. \<forall>d\<in>set (hs ! i). kept_ok h0 own S' (w + i) len d)"
  using assms
proof (induction rest arbitrary: w h S G)
  case Nil
  then show ?case by auto
next
  case (Cons ds rs)
  have wf0: "wf_word h0 own w ds" using Cons.prems(2) by force
  have i0: "prep_inv h0 own S (G \<union> heads []) h" using Cons.prems(1) by simp
  from setup_word_inv [OF i0 wf0, of len] obtain head' h1 S1 where
    sw: "setup_word w len ds [] h = Some (head', h1)"
    and i1: "prep_inv h0 own S1 (G \<union> heads head') h1" and s1: "S \<subseteq> S1"
    and k1: "\<forall>d\<in>set head'. kept_ok h0 own S1 w len d" by auto
  have wfr: "\<forall>i<length rs. wf_word h0 own (Suc w + i) (rs ! i)"
  proof (intro allI impI)
    fix i assume "i < length rs"
    then have "wf_word h0 own (w + Suc i) ((ds # rs) ! Suc i)" using Cons.prems(2) by auto
    then show "wf_word h0 own (Suc w + i) (rs ! i)" by simp
  qed
  from Cons.IH [OF i1 wfr] obtain hs h' S' where
    r: "setup_words (Suc w) len rs h1 = Some (hs, h')" and l: "length hs = length rs"
    and i2: "prep_inv h0 own S' ((G \<union> heads head') \<union> (\<Union>ds\<in>set hs. heads ds)) h'"
    and s2: "S1 \<subseteq> S'"
    and k2: "\<forall>i<length hs. \<forall>d\<in>set (hs ! i). kept_ok h0 own S' (Suc w + i) len d" by blast
  have e: "setup_words w len (ds # rs) h = Some (head' # hs, h')" using sw r by simp
  have i3: "prep_inv h0 own S' (G \<union> (\<Union>ds\<in>set (head' # hs). heads ds)) h'"
    using i2 by (simp add: Un_assoc)
  have k3: "\<forall>i<length (head' # hs). \<forall>d\<in>set ((head' # hs) ! i). kept_ok h0 own S' (w + i) len d"
  proof (intro allI impI ballI)
    fix i d assume i: "i < length (head' # hs)" and d: "d \<in> set ((head' # hs) ! i)"
    show "kept_ok h0 own S' (w + i) len d"
    proof (cases i)
      case 0
      then show ?thesis using d k1 s2 kept_ok_mono by auto
    next
      case (Suc j)
      then show ?thesis using i d k2 by auto
    qed
  qed
  show ?case using e l i3 s1 s2 k3
    by (intro exI [of _ "head' # hs"] exI [of _ h'] exI [of _ S']) auto
qed

lemma wf_sent_words:
  "wf_sent own sent \<Longrightarrow> i < length (sent_word_d sent) \<Longrightarrow>
   wf_word (sent_connectors sent) own i (sent_word_d sent ! i)"
proof -
  assume wf: "wf_sent own sent" and i: "i < length (sent_word_d sent)"
  have "(i, sent_word_d sent ! i) \<in> set (zip [0..<length (sent_word_d sent)] (sent_word_d sent))"
    using i by (auto simp: set_zip intro!: exI [of _ i])
  then show ?thesis using wf by (auto simp: wf_sent_def list_all_iff)
qed

lemma prep_inv_init: "prep_inv h0 own {} {} h0"
  by (simp add: prep_inv_def)

text \<open>What \<open>setup_connectors\<close> achieves on a sentence as \<open>build_disjunct\<close> makes them.\<close>

lemma setup_connectors_inv:
  assumes wf: "wf_sent own sent"
  shows "\<exists>sent' S. setup_connectors sent = Some sent' \<and>
           length (sent_word_d sent') = length (sent_word_d sent) \<and>
           prep_inv (sent_connectors sent) own S (\<Union>ds\<in>set (sent_word_d sent'). heads ds)
             (sent_connectors sent') \<and>
           (\<forall>w<length (sent_word_d sent'). \<forall>d\<in>set (sent_word_d sent' ! w).
              kept_ok (sent_connectors sent) own S w (length (sent_word_d sent)) d)"
proof -
  let ?h0 = "sent_connectors sent" and ?ws = "sent_word_d sent"
  have w: "\<forall>i<length ?ws. wf_word ?h0 own (0 + i) (?ws ! i)"
    using wf_sent_words [OF wf] by simp
  from setup_words_inv [OF prep_inv_init w, of "length ?ws"] obtain hs h' S' where
    r: "setup_words 0 (length ?ws) ?ws ?h0 = Some (hs, h')" and l: "length hs = length ?ws"
    and i: "prep_inv ?h0 own S' ({} \<union> (\<Union>ds\<in>set hs. heads ds)) h'"
    and k: "\<forall>i<length hs. \<forall>d\<in>set (hs ! i). kept_ok ?h0 own S' (0 + i) (length ?ws) d"
    by blast
  let ?s' = "sent\<lparr>sent_word_d := hs, sent_connectors := h'\<rparr>"
  have "setup_connectors sent = Some ?s'" using r by (simp add: setup_connectors_def)
  then show ?thesis using l i k
    by (intro exI [of _ ?s'] exI [of _ S']) simp
qed

lemma kept_left_value:
  assumes inv: "prep_inv h0 own S H h'" and k: "kept_ok h0 own S w len d"
    and ch: "chain h' (d_left d) xs" and kk: "k < length xs"
  shows "c_nearest_word (h' (xs ! k)) = int w - int (length xs - k) \<and> 0 \<le> int w - int (length xs)"
proof -
  have c0: "chain h0 (d_left d) xs" using ch prep_inv_chain [OF inv] by simp
  from k obtain xs' where x: "chain h0 (d_left d) xs'" "set xs' \<subseteq> S"
    "\<forall>a\<in>set xs'. own a = (w, False)" "0 \<le> int w - int (length xs')"
    unfolding kept_ok_def by blast
  have e: "xs' = xs" using chain_unique [OF x(1) c0] .
  have m: "xs ! k \<in> set xs" using kk by simp
  then have "expected own h0 (xs ! k) (c_nearest_word (h' (xs ! k)))"
    using inv x(2) e by (auto simp: prep_inv_def)
  then obtain zs where z: "chain h0 (Some (xs ! k)) zs"
    "c_nearest_word (h' (xs ! k)) = int (fst (own (xs ! k)))
        + (if snd (own (xs ! k)) then 1 else - 1) * int (length zs)"
    unfolding expected_def by blast
  have "zs = drop k xs" using chain_unique [OF z(1) chain_drop [OF c0 kk] ] .
  moreover have "own (xs ! k) = (w, False)" using x(3) e m by simp
  ultimately show ?thesis using z(2) x(4) e by simp
qed

lemma kept_right_value:
  assumes inv: "prep_inv h0 own S H h'" and k: "kept_ok h0 own S w len d"
    and ch: "chain h' (d_right d) ys" and kk: "k < length ys"
  shows "c_nearest_word (h' (ys ! k)) = int w + int (length ys - k) \<and> int w + int (length ys) < int len"
proof -
  have c0: "chain h0 (d_right d) ys" using ch prep_inv_chain [OF inv] by simp
  from k obtain ys' where x: "chain h0 (d_right d) ys'" "set ys' \<subseteq> S"
    "\<forall>a\<in>set ys'. own a = (w, True)" "int w + int (length ys') < int len"
    unfolding kept_ok_def by blast
  have e: "ys' = ys" using chain_unique [OF x(1) c0] .
  have m: "ys ! k \<in> set ys" using kk by simp
  then have "expected own h0 (ys ! k) (c_nearest_word (h' (ys ! k)))"
    using inv x(2) e by (auto simp: prep_inv_def)
  then obtain zs where z: "chain h0 (Some (ys ! k)) zs"
    "c_nearest_word (h' (ys ! k)) = int (fst (own (ys ! k)))
        + (if snd (own (ys ! k)) then 1 else - 1) * int (length zs)"
    unfolding expected_def by blast
  have "zs = drop k ys" using chain_unique [OF z(1) chain_drop [OF c0 kk] ] .
  moreover have "own (ys ! k) = (w, True)" using x(3) e m by simp
  ultimately show ?thesis using z(2) x(4) e by simp
qed

section \<open>Preparation: nearest words and shallow connectors\<close>

text \<open>
  C10.  The value \<open>set_dist_fields\<close> stores in a connector is the word index plus
  \<open>delta\<close> times the number of connectors from it to the end of its chain, whatever
  else the heap holds.  So when two chains of disjuncts of one word and one
  direction both hold the connector \<open>a\<close>, the call on either chain returns and
  stores the same value in \<open>a\<close>, and so does the call on the second chain after
  the call on the first, in either order.
\<close>

theorem set_dist_fields_shared:
  assumes "chain h c1 xs" and "chain h c2 ys" and "a \<in> set xs" and "a \<in> set ys"
  shows "\<exists>h1 h2 h12 h21.
     set_dist_fields c1 w delta h = Some (int w + delta * int (length xs), h1) \<and>
     set_dist_fields c2 w delta h = Some (int w + delta * int (length ys), h2) \<and>
     set_dist_fields c2 w delta h1 = Some (int w + delta * int (length ys), h12) \<and>
     set_dist_fields c1 w delta h2 = Some (int w + delta * int (length xs), h21) \<and>
     links_to_end ys a = links_to_end xs a \<and>
     c_nearest_word (h1 a) = int w + delta * int (links_to_end xs a) \<and>
     c_nearest_word (h2 a) = int w + delta * int (links_to_end xs a) \<and>
     c_nearest_word (h12 a) = int w + delta * int (links_to_end xs a) \<and>
     c_nearest_word (h21 a) = int w + delta * int (links_to_end xs a)"
proof -
  let ?h1 = "dist_heap w delta xs h" and ?h2 = "dist_heap w delta ys h"
  have "chain h (Some a) (dropWhile (\<lambda>x. x \<noteq> a) xs)" using chain_suffix [OF assms(1,3)] .
  moreover have "chain h (Some a) (dropWhile (\<lambda>x. x \<noteq> a) ys)" using chain_suffix [OF assms(2,4)] .
  ultimately have "dropWhile (\<lambda>x. x \<noteq> a) ys = dropWhile (\<lambda>x. x \<noteq> a) xs"
    by (rule chain_unique [symmetric])
  then have l: "links_to_end ys a = links_to_end xs a" by (simp add: links_to_end_def)
  have c12: "chain ?h1 c2 ys" using assms(2) chain_same_links [of ?h1 h c2 ys] by simp
  have c21: "chain ?h2 c1 xs" using assms(1) chain_same_links [of ?h2 h c1 xs] by simp
  show ?thesis
    using set_dist_fields_chain [OF assms(1), of w delta] set_dist_fields_chain [OF assms(2), of w delta]
      set_dist_fields_chain [OF c12, of w delta] set_dist_fields_chain [OF c21, of w delta]
      l assms(3,4)
    by (intro exI [of _ ?h1] exI [of _ ?h2] exI [of _ "dist_heap w delta ys ?h1"]
        exI [of _ "dist_heap w delta xs ?h2"]) (simp add: dist_heap_def)
qed

theorem set_dist_fields_shared_witness:
  "chain sample_heap (Some 0) [0, 1] \<and> chain sample_heap (Some 2) [2, 1] \<and>
   1 \<in> set [0, 1 :: nat] \<and> 1 \<in> set [2, 1 :: nat] \<and> links_to_end [0, 1] 1 = 1 \<and>
   (\<exists>h1 h2 h12 h21.
      set_dist_fields (Some 0) 1 1 sample_heap = Some (3, h1) \<and>
      set_dist_fields (Some 2) 1 1 sample_heap = Some (3, h2) \<and>
      set_dist_fields (Some 2) 1 1 h1 = Some (3, h12) \<and>
      set_dist_fields (Some 0) 1 1 h2 = Some (3, h21) \<and>
      c_nearest_word (h1 1) = 2 \<and> c_nearest_word (h2 1) = 2 \<and>
      c_nearest_word (h12 1) = 2 \<and> c_nearest_word (h21 1) = 2)"
proof -
  have c1: "chain sample_heap (Some 0) [0, 1]" and c2: "chain sample_heap (Some 2) [2, 1]"
    by (simp_all add: sample_heap_def zero_connector_def)
  have m1: "1 \<in> set [0, 1 :: nat]" and m2: "1 \<in> set [2, 1 :: nat]" by simp_all
  have l: "links_to_end [0, 1] 1 = 1" by (simp add: links_to_end_def)
  show ?thesis
    using set_dist_fields_shared [OF c1 c2 m1 m2, of 1 1] c1 c2 l by simp blast
qed

text \<open>
  C1 (as amended).  On a sentence whose chains all end and whose connectors each
  lie on chains of one word and one direction only, \<open>setup_connectors\<close> returns,
  and for every surviving disjunct \<open>d\<close> on word \<open>w\<close>: the connector at depth \<open>k\<close> of
  its left chain of \<open>n\<close> connectors has \<open>nearest_word = w - (n - k)\<close>, and \<open>w - n \<ge> 0\<close>;
  the connector at depth \<open>k\<close> of its right chain of \<open>n\<close> connectors has
  \<open>nearest_word = w + (n - k)\<close>, and \<open>w + n\<close> is less than the sentence length.  The
  head of a chain reaches farthest, the last connector reaches the neighbour.
\<close>

theorem setup_connectors_nearest_word:
  assumes "wf_sent own sent"
  shows "\<exists>sent'. setup_connectors sent = Some sent' \<and>
     length (sent_word_d sent') = length (sent_word_d sent) \<and>
     (\<forall>w d xs k. w < length (sent_word_d sent') \<longrightarrow> d \<in> set (sent_word_d sent' ! w) \<longrightarrow>
        k < length xs \<longrightarrow>
        (chain (sent_connectors sent') (d_left d) xs \<longrightarrow>
           c_nearest_word (sent_connectors sent' (xs ! k)) = int w - int (length xs - k) \<and>
           0 \<le> int w - int (length xs)) \<and>
        (chain (sent_connectors sent') (d_right d) xs \<longrightarrow>
           c_nearest_word (sent_connectors sent' (xs ! k)) = int w + int (length xs - k) \<and>
           int w + int (length xs) < int (length (sent_word_d sent))))"
proof -
  from setup_connectors_inv [OF assms] obtain sent' S where
    r: "setup_connectors sent = Some sent'"
    and l: "length (sent_word_d sent') = length (sent_word_d sent)"
    and i: "prep_inv (sent_connectors sent) own S (\<Union>ds\<in>set (sent_word_d sent'). heads ds)
             (sent_connectors sent')"
    and k: "\<forall>w<length (sent_word_d sent'). \<forall>d\<in>set (sent_word_d sent' ! w).
              kept_ok (sent_connectors sent) own S w (length (sent_word_d sent)) d"
    by blast
  show ?thesis
    using r l k kept_left_value [OF i] kept_right_value [OF i]
    by (intro exI [of _ sent']) blast
qed

theorem setup_connectors_nearest_word_witness:
  "\<exists>sent. sentence_of_word 2 3 exp_A_and_B_left = Some sent \<and>
     wf_sent (\<lambda>a. (2, False)) sent \<and>
     (\<exists>sent'. setup_connectors sent = Some sent' \<and>
        sent_word_d sent' = [ [], [], [sample_disjunct (Some 0) None] ] \<and>
        chain (sent_connectors sent') (Some 0) [0, 1] \<and>
        c_nearest_word (sent_connectors sent' 0) = 0 \<and>
        c_nearest_word (sent_connectors sent' 1) = 1)"
proof -
  have "map_option (\<lambda>s. (sent_word_d s, sent_connectors_used s, map (sent_connectors s) [0..<2]))
          (sentence_of_word 2 3 exp_A_and_B_left)
        = Some ([ [], [], [sample_disjunct (Some 0) None] ], 2,
                [zero_connector\<lparr>c_desc := 2, c_exp_pos := 1, c_next := Some 1\<rparr>,
                 zero_connector\<lparr>c_desc := 1, c_exp_pos := 0\<rparr>])"
    by code_simp
  then obtain sent where s: "sentence_of_word 2 3 exp_A_and_B_left = Some sent"
    and w: "sent_word_d sent = [ [], [], [sample_disjunct (Some 0) None] ]"
    and u: "sent_connectors_used sent = 2"
    and h: "sent_connectors sent 0 = zero_connector\<lparr>c_desc := 2, c_exp_pos := 1, c_next := Some 1\<rparr>"
      "sent_connectors sent 1 = zero_connector\<lparr>c_desc := 1, c_exp_pos := 0\<rparr>"
    by (auto simp: upt_conv_Cons)
  have "chain (sent_connectors sent) (Some 0) [0, 1]"
    using h by (simp add: zero_connector_def)
  then have "owned (sent_connectors sent) (\<lambda>a. (2, False)) (2, False) (Some 0)"
    unfolding owned_def by (intro exI [of _ "[0, 1]"]) simp
  moreover have "owned (sent_connectors sent) (\<lambda>a. (2, False)) (2, True) None"
    unfolding owned_def by (intro exI [of _ "[]"]) simp
  ultimately have wf: "wf_sent (\<lambda>a. (2, False)) sent"
    by (simp add: wf_sent_def wf_word_def w sample_disjunct_def upt_conv_Cons numeral_2_eq_2)
  from setup_connectors_nearest_word [OF wf] obtain sent' where
    r: "setup_connectors sent = Some sent'"
    and v: "\<forall>w d xs k. w < length (sent_word_d sent') \<longrightarrow> d \<in> set (sent_word_d sent' ! w) \<longrightarrow>
        k < length xs \<longrightarrow>
        (chain (sent_connectors sent') (d_left d) xs \<longrightarrow>
           c_nearest_word (sent_connectors sent' (xs ! k)) = int w - int (length xs - k) \<and>
           0 \<le> int w - int (length xs)) \<and>
        (chain (sent_connectors sent') (d_right d) xs \<longrightarrow>
           c_nearest_word (sent_connectors sent' (xs ! k)) = int w + int (length xs - k) \<and>
           int w + int (length xs) < int (length (sent_word_d sent)))"
    by blast
  have "prepared (sentence_of_word 2 3 exp_A_and_B_left) =
     Some ([ [], [], [sample_disjunct (Some 0) None] ],
           [zero_connector\<lparr>c_desc := 2, c_exp_pos := 1, c_nearest_word := 0, c_shallow := True,
                           c_next := Some 1\<rparr>,
            zero_connector\<lparr>c_desc := 1, c_exp_pos := 0, c_nearest_word := 1\<rparr>])"
    by code_simp
  moreover have "sent_connectors_used sent' = 2"
    using r u by (auto simp: setup_connectors_def split: bind_splits)
  ultimately have w': "sent_word_d sent' = [ [], [], [sample_disjunct (Some 0) None] ]"
    and c: "sent_connectors sent' 0 = zero_connector\<lparr>c_desc := 2, c_exp_pos := 1,
              c_nearest_word := 0, c_shallow := True, c_next := Some 1\<rparr>"
      "sent_connectors sent' 1 = zero_connector\<lparr>c_desc := 1, c_exp_pos := 0, c_nearest_word := 1\<rparr>"
    using s r by (simp_all add: prepared_def upt_conv_Cons)
  have ch: "chain (sent_connectors sent') (Some 0) [0, 1]"
    using c by (simp add: zero_connector_def)
  have "c_nearest_word (sent_connectors sent' 0) = 0"
    using v [rule_format, of 2 "sample_disjunct (Some 0) None" 0 "[0, 1]"] w' ch
    by (simp add: sample_disjunct_def)
  moreover have "c_nearest_word (sent_connectors sent' 1) = 1"
    using v [rule_format, of 2 "sample_disjunct (Some 0) None" 1 "[0, 1]"] w' ch
    by (simp add: sample_disjunct_def)
  ultimately show ?thesis using s wf r w' ch by blast
qed

text \<open>The claim as stated fails for \<open>A- & B-\<close> on the last of three words: the one
  disjunct survives, its left chain is the connector of \<open>B\<close> (cell 0) followed by
  the connector of \<open>A\<close> (cell 1), and the head holds \<open>nearest_word = 0\<close>, not
  \<open>w - 1 - 0 = 1\<close>.\<close>

theorem setup_connectors_depth_counterexample:
  "prepared (sentence_of_word 2 3 exp_A_and_B_left) =
     Some ([ [], [], [sample_disjunct (Some 0) None] ],
           [zero_connector\<lparr>c_desc := 2, c_exp_pos := 1, c_nearest_word := 0, c_shallow := True,
                           c_next := Some 1\<rparr>,
            zero_connector\<lparr>c_desc := 1, c_exp_pos := 0, c_nearest_word := 1\<rparr>]) \<and>
   c_nearest_word (zero_connector\<lparr>c_desc := 2, c_exp_pos := 1, c_nearest_word := 0,
                     c_shallow := True, c_next := Some 1\<rparr>) \<noteq> 2 - 1 - 0"
  by code_simp

text \<open>
  C3 (as amended).  On a sentence whose chains all end and whose connectors each
  lie on chains of one word and one direction only, \<open>setup_connectors\<close> returns,
  the head connector of every non-empty left or right chain of a surviving
  disjunct has \<open>shallow = true\<close>, and a connector has \<open>shallow = true\<close> afterwards only
  if it had before or it is such a head.  A connector at depth \<open>> 0\<close> of a chain is
  shallow exactly when, being shared, it heads the chain of another surviving
  disjunct (or was shallow before).
\<close>

theorem setup_connectors_shallow:
  assumes "wf_sent own sent"
  shows "\<exists>sent'. setup_connectors sent = Some sent' \<and>
     (\<forall>w d a. w < length (sent_word_d sent') \<longrightarrow> d \<in> set (sent_word_d sent' ! w) \<longrightarrow>
        d_left d = Some a \<or> d_right d = Some a \<longrightarrow> c_shallow (sent_connectors sent' a)) \<and>
     (\<forall>b. c_shallow (sent_connectors sent' b) \<longrightarrow>
        c_shallow (sent_connectors sent b) \<or>
        (\<exists>w<length (sent_word_d sent'). \<exists>d\<in>set (sent_word_d sent' ! w).
           d_left d = Some b \<or> d_right d = Some b))"
proof -
  from setup_connectors_inv [OF assms] obtain sent' S where
    r: "setup_connectors sent = Some sent'"
    and i: "prep_inv (sent_connectors sent) own S (\<Union>ds\<in>set (sent_word_d sent'). heads ds)
             (sent_connectors sent')"
    by blast
  let ?H = "\<Union>ds\<in>set (sent_word_d sent'). heads ds"
  have H: "b \<in> ?H \<longleftrightarrow> (\<exists>w<length (sent_word_d sent'). \<exists>d\<in>set (sent_word_d sent' ! w).
           d_left d = Some b \<or> d_right d = Some b)" for b
  proof
    assume "b \<in> ?H"
    then obtain ds d where "ds \<in> set (sent_word_d sent')" "d \<in> set ds"
      "d_left d = Some b \<or> d_right d = Some b" by (auto simp: heads_def)
    moreover then obtain w where "w < length (sent_word_d sent')" "sent_word_d sent' ! w = ds"
      by (auto simp: in_set_conv_nth)
    ultimately show "\<exists>w<length (sent_word_d sent'). \<exists>d\<in>set (sent_word_d sent' ! w).
           d_left d = Some b \<or> d_right d = Some b" by blast
  next
    assume "\<exists>w<length (sent_word_d sent'). \<exists>d\<in>set (sent_word_d sent' ! w).
           d_left d = Some b \<or> d_right d = Some b"
    then obtain w d where "w < length (sent_word_d sent')" "d \<in> set (sent_word_d sent' ! w)"
      "d_left d = Some b \<or> d_right d = Some b" by blast
    moreover then have "sent_word_d sent' ! w \<in> set (sent_word_d sent')" by simp
    ultimately show "b \<in> ?H" unfolding heads_def by blast
  qed
  have 1: "c_shallow (sent_connectors sent' a)"
    if "w < length (sent_word_d sent')" "d \<in> set (sent_word_d sent' ! w)"
      "d_left d = Some a \<or> d_right d = Some a" for w d a
  proof -
    have "a \<in> ?H" using that H by blast
    then show ?thesis using i unfolding prep_inv_def by blast
  qed
  have 2: "c_shallow (sent_connectors sent b) \<or>
        (\<exists>w<length (sent_word_d sent'). \<exists>d\<in>set (sent_word_d sent' ! w).
           d_left d = Some b \<or> d_right d = Some b)"
    if "c_shallow (sent_connectors sent' b)" for b
  proof -
    have "c_shallow (sent_connectors sent b) \<or> b \<in> ?H"
      using that i unfolding prep_inv_def by blast
    then show ?thesis using H by blast
  qed
  show ?thesis using r 1 2 by (intro exI [of _ sent']) blast
qed

theorem setup_connectors_shallow_witness:
  "\<exists>sent. sentence_of_word 0 3 exp_Z_opt_X = Some sent \<and>
     wf_sent (\<lambda>a. (0, True)) sent \<and>
     (\<exists>sent'. setup_connectors sent = Some sent' \<and>
        sent_word_d sent' = [ [sample_disjunct None (Some 0), sample_disjunct None (Some 1)], [], [] ] \<and>
        c_shallow (sent_connectors sent' 0) \<and> c_shallow (sent_connectors sent' 1) \<and>
        \<not> c_shallow (sent_connectors sent' 2))"
proof -
  have "map_option (\<lambda>s. (sent_word_d s, map (sent_connectors s) [0..<3]))
          (sentence_of_word 0 3 exp_Z_opt_X)
        = Some ([ [sample_disjunct None (Some 1), sample_disjunct None (Some 0)], [], [] ],
                [zero_connector\<lparr>c_desc := 2, c_exp_pos := 1, c_next := Some 1\<rparr>,
                 zero_connector\<lparr>c_desc := 1, c_exp_pos := 0\<rparr>, zero_connector])"
    by code_simp
  then obtain sent where s: "sentence_of_word 0 3 exp_Z_opt_X = Some sent"
    and w: "sent_word_d sent = [ [sample_disjunct None (Some 1), sample_disjunct None (Some 0)], [], [] ]"
    and h: "sent_connectors sent 0 = zero_connector\<lparr>c_desc := 2, c_exp_pos := 1, c_next := Some 1\<rparr>"
      "sent_connectors sent 1 = zero_connector\<lparr>c_desc := 1, c_exp_pos := 0\<rparr>"
      "sent_connectors sent 2 = zero_connector"
    by (auto simp: upt_conv_Cons numeral_2_eq_2)
  have "chain (sent_connectors sent) (Some 0) [0, 1]" "chain (sent_connectors sent) (Some 1) [1]"
    using h by (simp_all add: zero_connector_def)
  then have "owned (sent_connectors sent) (\<lambda>a. (0, True)) (0, True) (Some 0)"
    "owned (sent_connectors sent) (\<lambda>a. (0, True)) (0, True) (Some 1)"
    unfolding owned_def by (intro exI [of _ "[0, 1]"], simp, intro exI [of _ "[1]"], simp)
  moreover have "owned (sent_connectors sent) (\<lambda>a. (0, True)) (0, False) None"
    unfolding owned_def by (intro exI [of _ "[]"]) simp
  ultimately have wf: "wf_sent (\<lambda>a. (0, True)) sent"
    by (simp add: wf_sent_def wf_word_def w sample_disjunct_def upt_conv_Cons)
  from setup_connectors_shallow [OF wf] obtain sent' where
    r: "setup_connectors sent = Some sent'"
    and hd: "\<forall>w d a. w < length (sent_word_d sent') \<longrightarrow> d \<in> set (sent_word_d sent' ! w) \<longrightarrow>
        d_left d = Some a \<or> d_right d = Some a \<longrightarrow> c_shallow (sent_connectors sent' a)"
    and n: "\<forall>b. c_shallow (sent_connectors sent' b) \<longrightarrow>
        c_shallow (sent_connectors sent b) \<or>
        (\<exists>w<length (sent_word_d sent'). \<exists>d\<in>set (sent_word_d sent' ! w).
           d_left d = Some b \<or> d_right d = Some b)"
    by blast
  have "map_option sent_word_d (Option.bind (sentence_of_word 0 3 exp_Z_opt_X) setup_connectors)
          = Some [ [sample_disjunct None (Some 0), sample_disjunct None (Some 1)], [], [] ]"
    by code_simp
  then have w': "sent_word_d sent'
      = [ [sample_disjunct None (Some 0), sample_disjunct None (Some 1)], [], [] ]"
    using s r by simp
  have s0: "c_shallow (sent_connectors sent' 0)"
    using hd [rule_format, of 0 "sample_disjunct None (Some 0)" 0] w'
    by (simp add: sample_disjunct_def)
  have s1: "c_shallow (sent_connectors sent' 1)"
    using hd [rule_format, of 0 "sample_disjunct None (Some 1)" 1] w'
    by (simp add: sample_disjunct_def)
  have s2: "\<not> c_shallow (sent_connectors sent' 2)"
    using n [rule_format, of 2] w' h(3)
    by (auto simp: sample_disjunct_def zero_connector_def less_Suc_eq numeral_3_eq_3)
  show ?thesis using s wf r w' s0 s1 s2 by blast
qed

text \<open>The claim as stated fails for \<open>Z+ & {X+}\<close> on the first of three words.  Both
  disjuncts survive: one has the right chain \<open>X\<close> (cell 0) then \<open>Z\<close> (cell 1), the
  other the right chain \<open>Z\<close> (cell 1) alone, the very cell the first chain ends in.
  Cell 1 is at depth 1 of the first chain and has \<open>shallow = true\<close>.\<close>

theorem setup_connectors_shallow_counterexample:
  "prepared (sentence_of_word 0 3 exp_Z_opt_X) =
     Some ([ [sample_disjunct None (Some 0), sample_disjunct None (Some 1)], [], [] ],
           [zero_connector\<lparr>c_desc := 2, c_exp_pos := 1, c_nearest_word := 2, c_shallow := True,
                           c_next := Some 1\<rparr>,
            zero_connector\<lparr>c_desc := 1, c_exp_pos := 0, c_nearest_word := 1, c_shallow := True\<rparr>]) \<and>
   [0, 1] ! 1 = (1 :: nat) \<and>
   chain (\<lambda>a. [zero_connector\<lparr>c_desc := 2, c_exp_pos := 1, c_nearest_word := 2, c_shallow := True,
                                c_next := Some 1\<rparr>,
                 zero_connector\<lparr>c_desc := 1, c_exp_pos := 0, c_nearest_word := 1,
                                c_shallow := True\<rparr>] ! a)
         (d_right (sample_disjunct None (Some 0))) [0, 1] \<and>
   c_shallow (zero_connector\<lparr>c_desc := 1, c_exp_pos := 0, c_nearest_word := 1, c_shallow := True\<rparr>)"
  by code_simp

section \<open>Disjuncts of category words\<close>

lemma store_jet_used [simp]: "bd_disjuncts_used (store_jet idir v st) = bd_disjuncts_used st"
  by (simp add: store_jet_def split: jet.splits)

lemma build_chains_used [simp]: "bd_disjuncts_used (build_chains ts st) = bd_disjuncts_used st"
  by (induction ts arbitrary: st) (simp_all add: Let_def split: option.splits)

lemma is_category_word_iff:
  "is_category_word par \<longleftrightarrow> \<not> p_sat_solver par \<and> category_encoded par"
  by (auto simp: is_category_word_def category_encoded_def split: list.splits)

lemma finish_disjunct_category:
  assumes "is_category_word par" and "0 < category_number par" and "category_number par < 64 * 1024"
  shows "\<exists>d. finish_disjunct par cl n ((p_fresh_disjunct par n)\<lparr>d_left := l, d_right := r\<rparr>) = Inr d \<and>
    category_disjunct par n (cl_totcost cl) d"
  using assms
  by (simp add: finish_disjunct_def category_disjunct_def category_number_def Let_def)

text \<open>
  C9 (as amended).  For a category-encoded word (generation mode, word string
  starting with a space) with a category number between 1 and 65535, and with the
  SAT solver not in use, \<open>build_disjunct\<close> returns, with one new disjunct for every
  clause it does not skip, in the order of the clauses.  Each is the memory cell as
  it was handed out, with only the chain heads, \<open>num_categories_alloced\<close>,
  \<open>num_categories\<close>, the category array and \<open>originating_gword\<close> written: the total
  cost of its clause is in \<open>category[0].cost\<close> and nowhere else, and the \<open>cost\<close> field of
  the disjunct is what the memory held before (like \<open>word_string\<close> and \<open>is_category\<close>, it
  is not written).
\<close>

theorem build_disjunct_category_cost:
  assumes "category_encoded par" and "\<not> p_sat_solver par"
    and "0 < category_number par" and "category_number par < 64 * 1024"
  shows "\<exists>new st'. build_disjunct par cls dis st = Inr (new @ dis, st') \<and>
     length new = length (kept_clauses par cls) \<and>
     bd_disjuncts_used st' = bd_disjuncts_used st + length new \<and>
     (\<forall>i<length new.
        category_disjunct par (bd_disjuncts_used st + i) (cl_totcost (kept_clauses par cls ! i))
          (rev new ! i) \<and>
        cat_cost (d_category (rev new ! i) ! 0) = cl_totcost (kept_clauses par cls ! i) \<and>
        d_cost (rev new ! i) = d_cost (p_fresh_disjunct par (bd_disjuncts_used st + i)))"
proof (induction cls arbitrary: dis st)
  case Nil
  then show ?case by (simp add: kept_clauses_def)
next
  case (Cons cl rest)
  have c: "is_category_word par" using assms(1,2) by (simp add: is_category_word_iff)
  show ?case
  proof (cases "cl_c cl = [] \<or> fgt (cl_totcost cl) (p_cost_cutoff par)")
    case True
    then have "build_disjunct par (cl # rest) dis st = build_disjunct par rest dis st"
      and "kept_clauses par (cl # rest) = kept_clauses par rest"
      by (auto simp: kept_clauses_def)
    then show ?thesis using Cons.IH [of dis st] by simp
  next
    case False
    let ?n = "bd_disjuncts_used st"
    let ?st0 = "st\<lparr>bd_disjuncts_used := Suc ?n, bd_left := None, bd_right := None,
                  bd_jet := (\<lambda>idir. Dis_field), bd_is_tracon := (\<lambda>idir. False)\<rparr>"
    let ?st1 = "build_chains (cl_c cl) ?st0"
    let ?ndis = "(p_fresh_disjunct par ?n)\<lparr>d_left := bd_left ?st1, d_right := bd_right ?st1\<rparr>"
    let ?kept = "kept_clauses par rest"
    have k: "kept_clauses par (cl # rest) = cl # ?kept" using False by (simp add: kept_clauses_def)
    from finish_disjunct_category [OF c assms(3,4)] obtain d where
      f: "finish_disjunct par cl ?n ?ndis = Inr d"
      and cd: "category_disjunct par ?n (cl_totcost cl) d" by blast
    have b: "build_disjunct par (cl # rest) dis st = build_disjunct par rest (d # dis) ?st1"
      using False f by (simp add: Let_def)
    have u: "bd_disjuncts_used ?st1 = Suc ?n" by simp
    from Cons.IH [of "d # dis" ?st1] obtain new st' where
      n: "build_disjunct par rest (d # dis) ?st1 = Inr (new @ d # dis, st')"
      "length new = length ?kept" "bd_disjuncts_used st' = Suc ?n + length new"
      "\<forall>i<length new.
        category_disjunct par (Suc ?n + i) (cl_totcost (?kept ! i)) (rev new ! i) \<and>
        cat_cost (d_category (rev new ! i) ! 0) = cl_totcost (?kept ! i) \<and>
        d_cost (rev new ! i) = d_cost (p_fresh_disjunct par (Suc ?n + i))"
      unfolding u by blast
    have "category_disjunct par (?n + i) (cl_totcost ((cl # ?kept) ! i)) (rev (new @ [d]) ! i) \<and>
        cat_cost (d_category (rev (new @ [d]) ! i) ! 0) = cl_totcost ((cl # ?kept) ! i) \<and>
        d_cost (rev (new @ [d]) ! i) = d_cost (p_fresh_disjunct par (?n + i))"
      if i: "i < length (new @ [d])" for i
    proof (cases i)
      case 0
      have "cat_cost (d_category d ! 0) = cl_totcost cl"
        using arg_cong [OF cd [unfolded category_disjunct_def], of d_category] by simp
      moreover have "d_cost d = d_cost (p_fresh_disjunct par ?n)"
        using arg_cong [OF cd [unfolded category_disjunct_def], of d_cost] by simp
      ultimately show ?thesis using 0 cd by simp
    next
      case (Suc j)
      then have "j < length new" using i by simp
      then show ?thesis using n(4) Suc by simp
    qed
    then show ?thesis unfolding b k using n(1,2,3)
      by (intro exI [of _ "new @ [d]"] exI [of _ st']) simp
  qed
qed

theorem build_disjunct_category_cost_witness:
  "category_encoded category_params \<and> \<not> p_sat_solver category_params \<and>
   category_number category_params = 31 \<and>
   build_clause (Some exp_four) (context0 (flt 10))
     = Inr (or_exp 0 [Exp_struct CONNECTOR_type (flt (1 / 2)) 0 (CHR ''+'') False 1 0 [], and_exp 0 [],
              Exp_struct CONNECTOR_type (flt 3) 1 (CHR ''+'') False 2 0 [],
              Exp_struct CONNECTOR_type (flt 11) 2 (CHR ''+'') False 3 0 [] ],
            sample_clauses, \<lparr>Tconnector_pool = 3, cost_cutoff = flt 10, exp_pos = 3\<rparr>) \<and>
   (\<exists>d1 d2 st'. build_disjunct category_params sample_clauses [] sample_state = Inr ([d2, d1], st') \<and>
      cat_cost (d_category d1 ! 0) = flt (1 / 2) \<and> cat_cost (d_category d2 ! 0) = flt 3 \<and>
      d_cost d1 = flt 77 \<and> d_cost d2 = flt 77)"
proof -
  have c: "category_encoded category_params" "\<not> p_sat_solver category_params"
    by (simp_all add: category_encoded_def category_params_def sample_params_def)
  have m: "category_number category_params = 31"
    by (simp add: category_number_def category_params_def sample_params_def)
  have b: "build_clause (Some exp_four) (context0 (flt 10))
     = Inr (or_exp 0 [Exp_struct CONNECTOR_type (flt (1 / 2)) 0 (CHR ''+'') False 1 0 [], and_exp 0 [],
              Exp_struct CONNECTOR_type (flt 3) 1 (CHR ''+'') False 2 0 [],
              Exp_struct CONNECTOR_type (flt 11) 2 (CHR ''+'') False 3 0 [] ],
            sample_clauses, \<lparr>Tconnector_pool = 3, cost_cutoff = flt 10, exp_pos = 3\<rparr>)"
    by code_simp
  have k: "kept_clauses category_params sample_clauses = [sample_clauses ! 0, sample_clauses ! 2]"
    by code_simp
  have t: "map cl_totcost [sample_clauses ! 0, sample_clauses ! 2] = [flt (1 / 2), flt 3]"
    by code_simp
  have f: "d_cost (p_fresh_disjunct category_params n) = flt 77" for n
    by (simp add: category_params_def sample_params_def)
  from build_disjunct_category_cost [OF c, of sample_clauses "[]" sample_state] m
  obtain new st' where
    n: "build_disjunct category_params sample_clauses [] sample_state = Inr (new @ [], st')"
    "length new = length (kept_clauses category_params sample_clauses)"
    "\<forall>i<length new.
        category_disjunct category_params (bd_disjuncts_used sample_state + i)
          (cl_totcost (kept_clauses category_params sample_clauses ! i)) (rev new ! i) \<and>
        cat_cost (d_category (rev new ! i) ! 0)
          = cl_totcost (kept_clauses category_params sample_clauses ! i) \<and>
        d_cost (rev new ! i)
          = d_cost (p_fresh_disjunct category_params (bd_disjuncts_used sample_state + i))"
    by auto
  have "length (rev new) = 2" using n(2) k by simp
  then obtain d1 d2 where r: "rev new = [d1, d2]"
    by (cases "rev new"; cases "tl (rev new)"; cases "tl (tl (rev new))") auto
  then have nw: "new = [d2, d1]" by (metis rev_rev_ident rev.simps append_Nil append_Cons)
  have 0: "cat_cost (d_category d1 ! 0) = flt (1 / 2) \<and> d_cost d1 = flt 77"
    using n(3) [rule_format, of 0] r nw k t f by simp
  have 1: "cat_cost (d_category d2 ! 0) = flt 3 \<and> d_cost d2 = flt 77"
    using n(3) [rule_format, of 1] r nw k t f by simp
  show ?thesis using c m b n(1) nw 0 1 by auto
qed

text \<open>The claim as stated fails when the SAT solver is in use: the test
  \<open>sat_solver || ...\<close> then takes the other branch also for a category-encoded word,
  and the total cost of the clause is stored in the \<open>cost\<close> field of the disjunct,
  where the memory held 77 before.\<close>

theorem build_disjunct_sat_solver_counterexample:
  "category_encoded sat_params \<and>
   map_sum id (map d_cost \<circ> fst) (build_disjunct sat_params [sample_clauses ! 0] [] sample_state)
     = Inr [Finite False (1 / 2)] \<and>
   cl_totcost (sample_clauses ! 0) = Finite False (1 / 2) \<and>
   d_cost (p_fresh_disjunct sat_params 0) = Finite False 77"
  by code_simp

section \<open>The chains \<open>build_disjunct\<close> makes\<close>

text \<open>
  The disjuncts \<open>build_disjuncts_for_exp\<close> makes for a word have chains that end and
  that consist of connectors made for that word and for one direction, whatever
  cells the clauses share: they meet the hypothesis \<open>wf_word\<close> of the theorems on
  \<open>setup_connectors\<close>.
\<close>

lemma cells_ok_distinct: "cells_ok lo hi S \<Longrightarrow> cl \<in> S \<Longrightarrow> distinct (map t_addr (cl_c cl))"
  unfolding cells_ok_def by blast

lemma cells_ok_cell:
  "cells_ok lo hi S \<Longrightarrow> cl \<in> S \<Longrightarrow> t \<in> set (cl_c cl) \<Longrightarrow>
   lo \<le> t_addr t \<and> t_addr t < hi \<and> t_tracon t = None"
  unfolding cells_ok_def by blast

lemma cells_ok_same:
  "cells_ok lo hi S \<Longrightarrow> cl \<in> S \<Longrightarrow> cl' \<in> S \<Longrightarrow> t \<in> set (cl_c cl) \<Longrightarrow> t' \<in> set (cl_c cl') \<Longrightarrow>
   t_addr t = t_addr t' \<Longrightarrow> t_e t = t_e t'"
  unfolding cells_ok_def by blast

lemma cells_ok_mono:
  assumes "cells_ok lo hi S" "S' \<subseteq> S" "lo' \<le> lo" "hi \<le> hi'"
  shows "cells_ok lo' hi' S'"
  unfolding cells_ok_def
proof (intro conjI ballI impI)
  fix cl assume "cl \<in> S'"
  then show "distinct (map t_addr (cl_c cl))" using cells_ok_distinct [OF assms(1)] assms(2) by blast
next
  fix cl t assume a: "cl \<in> S'" "t \<in> set (cl_c cl)"
  then have "cl \<in> S" using assms(2) by blast
  from cells_ok_cell [OF assms(1) this a(2)] assms(3,4)
  show "lo' \<le> t_addr t" "t_addr t < hi'" "t_tracon t = None" by simp_all
next
  fix cl cl' t t'
  assume a: "cl \<in> S'" "cl' \<in> S'" "t \<in> set (cl_c cl)" "t' \<in> set (cl_c cl')" "t_addr t = t_addr t'"
  then have "cl \<in> S" "cl' \<in> S" using assms(2) by blast+
  from cells_ok_same [OF assms(1) this a(3,4,5)] show "t_e t = t_e t'" .
qed

lemma catenate_cells:
  "catenate e1 e2 tp = (l, tp') \<Longrightarrow>
   tp' = tp + length e1 \<and> map t_addr l = [tp..<tp + length e1] @ map t_addr e2 \<and>
   map t_e l = map t_e e1 @ map t_e e2 \<and> map t_tracon l = map t_tracon e1 @ map t_tracon e2"
proof (induction e1 arbitrary: tp l tp')
  case Nil
  then show ?case by simp
next
  case (Cons a e1)
  obtain tl tp1 where c: "catenate e1 e2 (Suc tp) = (tl, tp1)" by fastforce
  from Cons.IH [OF c] Cons.prems c show ?case
    by (auto simp: upt_conv_Cons)
qed

lemma cells_ok_insert:
  assumes ok: "cells_ok lo tp S" and c3: "c3 \<in> S"
    and c4: "distinct (map t_addr (cl_c c4))" "\<forall>t\<in>set (cl_c c4). t_tracon t = None"
    and cat: "catenate (cl_c c4) (cl_c c3) tp = (l, tp')" and lo: "lo \<le> tp"
  shows "cells_ok lo tp' (insert \<lparr>cl_c = l, cl_totcost = x\<rparr> S)"
proof -
  note cc = catenate_cells [OF cat]
  let ?n = "length (cl_c c4)"
  have tp': "tp' = tp + ?n" using cc by simp
  have len: "length l = ?n + length (cl_c c3)"
    using arg_cong [OF cc [THEN conjunct2, THEN conjunct1], of length] by simp
  have c3ok: "distinct (map t_addr (cl_c c3))"
    "\<forall>t\<in>set (cl_c c3). lo \<le> t_addr t \<and> t_addr t < tp \<and> t_tracon t = None"
    using cells_ok_distinct [OF ok c3] cells_ok_cell [OF ok c3] by blast+
  have d: "distinct (map t_addr l)"
  proof -
    have "set [tp..<tp + ?n] \<inter> set (map t_addr (cl_c c3)) = {}"
      using c3ok(2) by fastforce
    then show ?thesis using cc c3ok(1) by simp
  qed
  have nth_l: "\<And>i. i < length l \<Longrightarrow>
      (i < ?n \<longrightarrow> t_addr (l ! i) = tp + i) \<and>
      (\<not> i < ?n \<longrightarrow> t_addr (l ! i) = t_addr (cl_c c3 ! (i - ?n)) \<and> t_e (l ! i) = t_e (cl_c c3 ! (i - ?n))
          \<and> t_tracon (l ! i) = t_tracon (cl_c c3 ! (i - ?n)))"
      "\<And>i. i < length l \<Longrightarrow> i < ?n \<Longrightarrow> t_tracon (l ! i) = t_tracon (cl_c c4 ! i)"
  proof -
    fix i assume i: "i < length l"
    have a: "t_addr (l ! i) = ([tp..<tp + ?n] @ map t_addr (cl_c c3)) ! i"
      using arg_cong [OF cc [THEN conjunct2, THEN conjunct1], of "\<lambda>x. x ! i"] i by simp
    have b: "t_e (l ! i) = (map t_e (cl_c c4) @ map t_e (cl_c c3)) ! i"
      using arg_cong [OF cc [THEN conjunct2, THEN conjunct2, THEN conjunct1], of "\<lambda>x. x ! i"] i
      by simp
    have c: "t_tracon (l ! i) = (map t_tracon (cl_c c4) @ map t_tracon (cl_c c3)) ! i"
      using arg_cong [OF cc [THEN conjunct2, THEN conjunct2, THEN conjunct2], of "\<lambda>x. x ! i"] i
      by simp
    show "(i < ?n \<longrightarrow> t_addr (l ! i) = tp + i) \<and>
      (\<not> i < ?n \<longrightarrow> t_addr (l ! i) = t_addr (cl_c c3 ! (i - ?n)) \<and> t_e (l ! i) = t_e (cl_c c3 ! (i - ?n))
          \<and> t_tracon (l ! i) = t_tracon (cl_c c3 ! (i - ?n)))"
      using a b c i len by (auto simp: nth_append)
    show "i < ?n \<Longrightarrow> t_tracon (l ! i) = t_tracon (cl_c c4 ! i)"
      using c by (simp add: nth_append)
  qed
  have cell: "(lo \<le> t_addr t \<and> t_addr t < tp' \<and> t_tracon t = None) \<and>
      (t_addr t < tp \<longrightarrow> (\<exists>t3\<in>set (cl_c c3). t_addr t3 = t_addr t \<and> t_e t3 = t_e t))"
    if "t \<in> set l" for t
  proof -
    from that obtain i where i: "i < length l" "l ! i = t" by (auto simp: in_set_conv_nth)
    show ?thesis
    proof (cases "i < ?n")
      case True
      then have "t_addr t = tp + i" "t_tracon t = None"
        using nth_l(1) [OF i(1)] nth_l(2) [OF i(1) True] i(2) c4(2) by auto
      then show ?thesis using lo tp' True by auto
    next
      case False
      let ?t3 = "cl_c c3 ! (i - ?n)"
      have m: "?t3 \<in> set (cl_c c3)" using False i(1) len by simp
      have "t_addr t = t_addr ?t3" "t_e t = t_e ?t3" "t_tracon t = t_tracon ?t3"
        using nth_l(1) [OF i(1)] False i(2) by auto
      then show ?thesis using c3ok(2) m tp' by fastforce
    qed
  qed
  let ?c5 = "\<lparr>cl_c = l, cl_totcost = x\<rparr>"
  have S: "cells_ok lo tp' S" using cells_ok_mono [OF ok subset_refl le_refl, of tp'] tp' by simp
  have coh1: "t_e t = t_e t'"
    if h: "t \<in> set l" "cl' \<in> S" "t' \<in> set (cl_c cl')" "t_addr t = t_addr t'" for t cl' t'
  proof -
    have "t_addr t' < tp" using cells_ok_cell [OF ok h(2,3)] by simp
    then have "\<exists>t3\<in>set (cl_c c3). t_addr t3 = t_addr t \<and> t_e t3 = t_e t"
      using cell [OF h(1)] h(4) by simp
    then obtain t3 where t3: "t3 \<in> set (cl_c c3)" "t_addr t3 = t_addr t" "t_e t3 = t_e t"
      by blast
    have "t_e t3 = t_e t'" using cells_ok_same [OF ok c3 h(2) t3(1) h(3)] t3(2) h(4) by simp
    then show ?thesis using t3(3) by simp
  qed
  have coh2: "t_e t = t_e t'" if h: "t \<in> set l" "t' \<in> set l" "t_addr t = t_addr t'" for t t'
  proof -
    have "inj_on t_addr (set l)" using d by (simp add: distinct_map)
    then have "t = t'" using h by (simp add: inj_on_def)
    then show ?thesis by simp
  qed
  have P1: "distinct (map t_addr (cl_c cl))" if m: "cl \<in> insert ?c5 S" for cl
  proof (cases "cl = ?c5")
    case True
    then show ?thesis using d by simp
  next
    case False
    then have "cl \<in> S" using m by simp
    then show ?thesis by (rule cells_ok_distinct [OF S])
  qed
  have P2: "lo \<le> t_addr t \<and> t_addr t < tp' \<and> t_tracon t = None"
    if m: "cl \<in> insert ?c5 S" "t \<in> set (cl_c cl)" for cl t
  proof (cases "cl = ?c5")
    case True
    then have "t \<in> set l" using m(2) by simp
    then show ?thesis using cell by simp
  next
    case False
    then have "cl \<in> S" using m by simp
    then show ?thesis using m(2) by (rule cells_ok_cell [OF S])
  qed
  have P3: "t_e t = t_e t'"
    if m: "cl \<in> insert ?c5 S" "cl' \<in> insert ?c5 S" "t \<in> set (cl_c cl)" "t' \<in> set (cl_c cl')"
      "t_addr t = t_addr t'" for cl cl' t t'
  proof (cases "cl = ?c5")
    case True
    then have t: "t \<in> set l" using m(3) by simp
    show ?thesis
    proof (cases "cl' = ?c5")
      case True
      then have "t' \<in> set l" using m(4) by simp
      then show ?thesis using coh2 [OF t _ m(5)] by simp
    next
      case False
      then have "cl' \<in> S" using m(2) by simp
      then show ?thesis using coh1 [OF t _ m(4,5)] by simp
    qed
  next
    case False
    then have c: "cl \<in> S" using m(1) by simp
    show ?thesis
    proof (cases "cl' = ?c5")
      case True
      then have "t' \<in> set l" using m(4) by simp
      then have "t_e t' = t_e t" using coh1 [OF _ c m(3)] m(5) by simp
      then show ?thesis by simp
    next
      case False
      then have "cl' \<in> S" using m(2) by simp
      then show ?thesis using cells_ok_same [OF ok c _ m(3,4,5)] by simp
    qed
  qed
  show ?thesis
    unfolding cells_ok_def
  proof (intro conjI ballI impI)
    fix cl assume "cl \<in> insert ?c5 S"
    then show "distinct (map t_addr (cl_c cl))" by (rule P1)
  next
    fix cl t assume a: "cl \<in> insert ?c5 S" "t \<in> set (cl_c cl)"
    from P2 [OF a] show "lo \<le> t_addr t" "t_addr t < tp'" "t_tracon t = None" by simp_all
  next
    fix cl cl' t t'
    assume a: "cl \<in> insert ?c5 S" "cl' \<in> insert ?c5 S" "t \<in> set (cl_c cl)" "t' \<in> set (cl_c cl')"
      "t_addr t = t_addr t'"
    from P3 [OF a] show "t_e t = t_e t'" .
  qed
qed

lemma product_inner_cells:
  assumes "cells_ok lo tp (F \<union> set c_head)" and "c3 \<in> F"
    and "\<forall>c4\<in>set c2. distinct (map t_addr (cl_c c4)) \<and> (\<forall>t\<in>set (cl_c c4). t_tracon t = None)"
    and "lo \<le> tp" and "product_inner c3 c2 c_head tp = (h, tp')"
  shows "cells_ok lo tp' (F \<union> set h) \<and> tp \<le> tp'"
  using assms
proof (induction c2 arbitrary: c_head tp)
  case Nil
  then show ?case by simp
next
  case (Cons c4 rest)
  obtain l tp1 where l: "catenate (cl_c c4) (cl_c c3) tp = (l, tp1)" by fastforce
  let ?c5 = "\<lparr>cl_c = l, cl_totcost = fadd (cl_totcost c3) (cl_totcost c4)\<rparr>"
  have r: "product_inner c3 rest (?c5 # c_head) tp1 = (h, tp')"
    using Cons.prems(5) l by simp
  have c4: "distinct (map t_addr (cl_c c4))" "\<forall>t\<in>set (cl_c c4). t_tracon t = None"
    using Cons.prems(3) by simp_all
  have m: "c3 \<in> F \<union> set c_head" using Cons.prems(2) by simp
  have "cells_ok lo tp1 (insert ?c5 (F \<union> set c_head))"
    using cells_ok_insert [OF Cons.prems(1) m c4 l Cons.prems(4)] .
  then have ok: "cells_ok lo tp1 (F \<union> set (?c5 # c_head))" by simp
  have t: "tp \<le> tp1" using catenate_cells [OF l] by simp
  then have lo: "lo \<le> tp1" using Cons.prems(4) by simp
  have rest: "\<forall>c4\<in>set rest. distinct (map t_addr (cl_c c4)) \<and> (\<forall>t\<in>set (cl_c c4). t_tracon t = None)"
    using Cons.prems(3) by simp
  from Cons.IH [OF ok Cons.prems(2) rest lo r] t show ?case by simp
qed

lemma product_outer_cells:
  assumes "cells_ok lo tp (F \<union> set c_head)" and "set c \<subseteq> F"
    and "\<forall>c4\<in>set c2. distinct (map t_addr (cl_c c4)) \<and> (\<forall>t\<in>set (cl_c c4). t_tracon t = None)"
    and "lo \<le> tp" and "product_outer c c2 c_head tp = (h, tp')"
  shows "cells_ok lo tp' (F \<union> set h) \<and> tp \<le> tp'"
  using assms
proof (induction c arbitrary: c_head tp)
  case Nil
  then show ?case by simp
next
  case (Cons c3 rest)
  obtain h1 tp1 where i: "product_inner c3 c2 c_head tp = (h1, tp1)" by fastforce
  have r: "product_outer rest c2 h1 tp1 = (h, tp')" using Cons.prems(5) i by simp
  have c3: "c3 \<in> F" and sub: "set rest \<subseteq> F" using Cons.prems(2) by simp_all
  from product_inner_cells [OF Cons.prems(1) c3 Cons.prems(3,4) i]
  have ok: "cells_ok lo tp1 (F \<union> set h1)" and t: "tp \<le> tp1" by simp_all
  have lo: "lo \<le> tp1" using t Cons.prems(4) by simp
  from Cons.IH [OF ok sub Cons.prems(3) lo r] t show ?case by simp
qed

lemma cells_ok_add_cost: "cells_ok lo hi (set (add_cost x c)) = cells_ok lo hi (set c)"
  unfolding cells_ok_def add_cost_def by simp

lemma cells_ok_union:
  assumes a: "cells_ok lo mid A" and b: "cells_ok mid hi B" and le: "lo \<le> mid" "mid \<le> hi"
  shows "cells_ok lo hi (A \<union> B)"
proof -
  have A: "cells_ok lo hi A" using cells_ok_mono [OF a subset_refl le_refl le(2)] .
  have B: "cells_ok lo hi B" using cells_ok_mono [OF b subset_refl le(1) le_refl] .
  have P3: "t_e t = t_e t'"
    if m: "cl \<in> A \<union> B" "cl' \<in> A \<union> B" "t \<in> set (cl_c cl)" "t' \<in> set (cl_c cl')"
      "t_addr t = t_addr t'" for cl cl' t t'
  proof (cases "cl \<in> A")
    case True
    note cA = True
    show ?thesis
    proof (cases "cl' \<in> A")
      case True
      then show ?thesis using cells_ok_same [OF a cA _ m(3,4,5)] by simp
    next
      case False
      then have "cl' \<in> B" using m(2) by simp
      then have "mid \<le> t_addr t'" using cells_ok_cell [OF b _ m(4)] by simp
      moreover have "t_addr t < mid" using cells_ok_cell [OF a cA m(3)] by simp
      ultimately show ?thesis using m(5) by simp
    qed
  next
    case False
    then have cB: "cl \<in> B" using m(1) by simp
    show ?thesis
    proof (cases "cl' \<in> A")
      case True
      then have "t_addr t' < mid" using cells_ok_cell [OF a _ m(4)] by simp
      moreover have "mid \<le> t_addr t" using cells_ok_cell [OF b cB m(3)] by simp
      ultimately show ?thesis using m(5) by simp
    next
      case False
      then have "cl' \<in> B" using m(2) by simp
      then show ?thesis using cells_ok_same [OF b cB _ m(3,4,5)] by simp
    qed
  qed
  show ?thesis
    unfolding cells_ok_def
  proof (intro conjI ballI impI)
    fix cl assume "cl \<in> A \<union> B"
    then show "distinct (map t_addr (cl_c cl))"
      using cells_ok_distinct [OF A] cells_ok_distinct [OF B] by blast
  next
    fix cl t assume m: "cl \<in> A \<union> B" "t \<in> set (cl_c cl)"
    have "lo \<le> t_addr t \<and> t_addr t < hi \<and> t_tracon t = None"
    proof (cases "cl \<in> A")
      case True
      then show ?thesis using m(2) by (rule cells_ok_cell [OF A])
    next
      case False
      then have "cl \<in> B" using m(1) by simp
      then show ?thesis using m(2) by (rule cells_ok_cell [OF B])
    qed
    then show "lo \<le> t_addr t" "t_addr t < hi" "t_tracon t = None" by simp_all
  next
    fix cl cl' t t'
    assume m: "cl \<in> A \<union> B" "cl' \<in> A \<union> B" "t \<in> set (cl_c cl)" "t' \<in> set (cl_c cl')"
      "t_addr t = t_addr t'"
    from P3 [OF m] show "t_e t = t_e t'" .
  qed
qed

lemma build_clause_cells_aux:
  "\<forall>E' cls ct'. build_clause eo ct = Inr (E', cls, ct') \<longrightarrow>
     Tconnector_pool ct \<le> Tconnector_pool ct' \<and>
     cells_ok (Tconnector_pool ct) (Tconnector_pool ct') (set cls)"
  "\<forall>ops' c' ct' lo. build_AND ops c ct = Inr (ops', c', ct') \<longrightarrow>
     lo \<le> Tconnector_pool ct \<longrightarrow> cells_ok lo (Tconnector_pool ct) (set c) \<longrightarrow>
     Tconnector_pool ct \<le> Tconnector_pool ct' \<and> cells_ok lo (Tconnector_pool ct') (set c')"
  "\<forall>ops' c' ct' lo. build_OR ops2 c2 ct2 = Inr (ops', c', ct') \<longrightarrow>
     lo \<le> Tconnector_pool ct2 \<longrightarrow> cells_ok lo (Tconnector_pool ct2) (set c2) \<longrightarrow>
     Tconnector_pool ct2 \<le> Tconnector_pool ct' \<and> cells_ok lo (Tconnector_pool ct') (set c')"
proof (induction eo ct and ops c ct and ops2 c2 ct2 rule: build_clause_build_AND_build_OR.induct)
  case (2 co p d m cd fw ops ct)
  show ?case
  proof (intro allI impI)
    fix E' cls ct'
    assume a: "build_clause (Some (Exp_struct AND_type co p d m cd fw ops)) ct = Inr (E', cls, ct')"
    let ?c0 = "\<lparr>cl_c = [], cl_totcost = 0\<rparr>"
    from a obtain ops' c where r: "build_AND ops [?c0] ct = Inr (ops', c, ct')"
      and cls: "cls = add_cost co c"
      by (auto split: sum.splits)
    have i0: "cells_ok (Tconnector_pool ct) (Tconnector_pool ct) (set [?c0])"
      by (simp add: cells_ok_def)
    from "2.IH" [rule_format, OF r le_refl i0] cls
    show "Tconnector_pool ct \<le> Tconnector_pool ct' \<and>
          cells_ok (Tconnector_pool ct) (Tconnector_pool ct') (set cls)"
      by (simp add: cells_ok_add_cost)
  qed
next
  case (4 co p d m cd fw operand_first rest ct)
  show ?case
  proof (intro allI impI)
    fix E' cls ct'
    assume a: "build_clause (Some (Exp_struct OR_type co p d m cd fw (operand_first # rest))) ct
                 = Inr (E', cls, ct')"
    from a obtain opd' c ct1 where r1: "build_clause (Some operand_first) ct = Inr (opd', c, ct1)"
      by (auto split: sum.splits)
    from a r1 obtain rest' c' where r2: "build_OR rest c ct1 = Inr (rest', c', ct')"
      and cls: "cls = add_cost co c'"
      by (auto split: sum.splits)
    from "4.IH"(1) [rule_format, OF r1]
    have le: "Tconnector_pool ct \<le> Tconnector_pool ct1"
      and ok: "cells_ok (Tconnector_pool ct) (Tconnector_pool ct1) (set c)" by simp_all
    from "4.IH"(2) [OF r1 refl refl, rule_format, OF r2 le ok] le cls
    show "Tconnector_pool ct \<le> Tconnector_pool ct' \<and>
          cells_ok (Tconnector_pool ct) (Tconnector_pool ct') (set cls)"
      by (simp add: cells_ok_add_cost)
  qed
next
  case (5 co p d m cd fw ops ct)
  show ?case
    by (simp add: build_terminal_def Let_def cells_ok_def)
next
  case (7 c ct)
  then show ?case by simp
next
  case (8 opd rest c ct)
  show ?case
  proof (intro allI impI)
    fix ops' c' ct' lo
    assume a: "build_AND (opd # rest) c ct = Inr (ops', c', ct')"
      and lo: "lo \<le> Tconnector_pool ct" and inv: "cells_ok lo (Tconnector_pool ct) (set c)"
    then obtain opd' c2 ct1 where r1: "build_clause (Some opd) ct = Inr (opd', c2, ct1)"
      by (auto split: sum.splits)
    obtain c_head tp where po: "product_outer c c2 [] (Tconnector_pool ct1) = (c_head, tp)"
      by fastforce
    from a r1 po obtain rest' where
      r2: "build_AND rest c_head (ct1\<lparr>Tconnector_pool := tp\<rparr>) = Inr (rest', c', ct')"
      by (auto split: sum.splits)
    from "8.IH"(1) [rule_format, OF r1]
    have le: "Tconnector_pool ct \<le> Tconnector_pool ct1"
      and ok2: "cells_ok (Tconnector_pool ct) (Tconnector_pool ct1) (set c2)" by simp_all
    have c2: "\<forall>c4\<in>set c2. distinct (map t_addr (cl_c c4)) \<and> (\<forall>t\<in>set (cl_c c4). t_tracon t = None)"
      using cells_ok_distinct [OF ok2] cells_ok_cell [OF ok2] by blast
    have lo1: "lo \<le> Tconnector_pool ct1" using lo le by simp
    have "cells_ok lo (Tconnector_pool ct1) (set c \<union> set [])"
      using cells_ok_mono [OF inv subset_refl le_refl le] by simp
    from product_outer_cells [OF this subset_refl c2 lo1 po]
    have ok: "cells_ok lo tp (set c \<union> set c_head)" and t: "Tconnector_pool ct1 \<le> tp" by simp_all
    have okh: "cells_ok lo (Tconnector_pool (ct1\<lparr>Tconnector_pool := tp\<rparr>)) (set c_head)"
      using cells_ok_mono [OF ok _ le_refl le_refl, of "set c_head"] by simp
    have lo2: "lo \<le> Tconnector_pool (ct1\<lparr>Tconnector_pool := tp\<rparr>)" using lo1 t by simp
    from "8.IH"(2) [OF r1 refl refl po [symmetric] refl, rule_format, OF r2 lo2 okh] le t
    show "Tconnector_pool ct \<le> Tconnector_pool ct' \<and> cells_ok lo (Tconnector_pool ct') (set c')"
      by simp
  qed
next
  case (9 c ct)
  then show ?case by simp
next
  case (10 opd rest c ct)
  show ?case
  proof (intro allI impI)
    fix ops' c' ct' lo
    assume a: "build_OR (opd # rest) c ct = Inr (ops', c', ct')"
      and lo: "lo \<le> Tconnector_pool ct" and inv: "cells_ok lo (Tconnector_pool ct) (set c)"
    then obtain opd' c2 ct1 where r1: "build_clause (Some opd) ct = Inr (opd', c2, ct1)"
      by (auto split: sum.splits)
    from a r1 have ne: "c \<noteq> []" "c2 \<noteq> []" by (auto split: if_splits)
    from a r1 ne obtain rest' where r2: "build_OR rest (c @ c2) ct1 = Inr (rest', c', ct')"
      by (auto split: sum.splits)
    from "10.IH"(1) [rule_format, OF r1]
    have le: "Tconnector_pool ct \<le> Tconnector_pool ct1"
      and ok2: "cells_ok (Tconnector_pool ct) (Tconnector_pool ct1) (set c2)" by simp_all
    have ok: "cells_ok lo (Tconnector_pool ct1) (set (c @ c2))"
      using cells_ok_union [OF inv ok2 lo le] by simp
    have lo1: "lo \<le> Tconnector_pool ct1" using lo le by simp
    from "10.IH"(2) [OF r1 refl refl ne, rule_format, OF r2 lo1 ok] le
    show "Tconnector_pool ct \<le> Tconnector_pool ct' \<and> cells_ok lo (Tconnector_pool ct') (set c')"
      by simp
  qed
qed simp_all

lemma build_clause_cells:
  "build_clause eo ct = Inr (E', cls, ct') \<Longrightarrow>
   cells_ok (Tconnector_pool ct) (Tconnector_pool ct') (set cls)"
  using build_clause_cells_aux(1) by blast

lemma chain_agree:
  "chain h c xs \<Longrightarrow> \<forall>a\<in>set xs. c_next (h' a) = c_next (h a) \<Longrightarrow> chain h' c xs"
  by (induction xs arbitrary: c) auto

lemma chain_last_next: "chain h c xs \<Longrightarrow> xs \<noteq> [] \<Longrightarrow> c_next (h (last xs)) = None"
proof (induction xs arbitrary: c)
  case Nil
  then show ?case by simp
next
  case (Cons a as)
  show ?case
  proof (cases "as = []")
    case True
    then show ?thesis using Cons.prems by simp
  next
    case False
    then show ?thesis using Cons.IH [of "c_next (h a)"] Cons.prems by simp
  qed
qed

lemma chain_link:
  assumes "chain h c xs" and "m \<in> set xs" and n: "c_next (h m) = None" and ys: "chain h v ys"
    and m: "m \<notin> set ys"
  shows "chain (h(m := (h m)\<lparr>c_next := v\<rparr>)) c (xs @ ys)"
  using assms(1,2)
proof (induction xs arbitrary: c)
  case Nil
  then show ?case by simp
next
  case (Cons a as)
  let ?h = "h(m := (h m)\<lparr>c_next := v\<rparr>)"
  have c: "c = Some a" and t: "chain h (c_next (h a)) as" using Cons.prems by simp_all
  show ?case
  proof (cases "a = m")
    case True
    then have as: "as = []" using t n by (cases as) simp_all
    have "chain ?h v ys" using m by (intro chain_agree [OF ys]) auto
    moreover have "c_next (?h m) = v" by simp
    ultimately have "chain ?h (Some m) (m # ys)" by (simp del: fun_upd_apply)
    then show ?thesis using c True as by (simp del: fun_upd_apply)
  next
    case False
    then have "m \<in> set as" using Cons.prems(2) by simp
    from Cons.IH [OF t this] have "chain ?h (c_next (h a)) (as @ ys)" .
    moreover have "c_next (?h a) = c_next (h a)" using False by simp
    ultimately show ?thesis using c by (simp del: fun_upd_apply)
  qed
qed

lemma chain_unlinked:
  assumes "chain h c xs" and "m \<notin> set xs"
  shows "chain (h(m := x)) c xs"
  using assms by (intro chain_agree [OF assms(1)]) auto

lemma chain_in_None [simp]: "chain_in h lab lo hi d None"
  unfolding chain_in_def by (intro exI [of _ "[]"]) simp

lemma chain_in_link:
  assumes g: "chain_in h lab lo hi e c" and n: "c_next (h m) = None" and ys: "chain h v ys"
    and m: "m \<notin> set ys" and l: "\<forall>a\<in>set ys. lo \<le> a \<and> a < hi \<and> lab a = lab m"
  shows "chain_in (h(m := (h m)\<lparr>c_next := v\<rparr>)) lab lo hi e c"
proof -
  from g obtain xs where xs: "chain h c xs" "\<forall>a\<in>set xs. lo \<le> a \<and> a < hi \<and> lab a = e"
    unfolding chain_in_def by blast
  show ?thesis
  proof (cases "m \<in> set xs")
    case True
    then have "lab m = e" using xs(2) by blast
    then have "\<forall>a\<in>set (xs @ ys). lo \<le> a \<and> a < hi \<and> lab a = e" using xs(2) l by auto
    moreover have "chain (h(m := (h m)\<lparr>c_next := v\<rparr>)) c (xs @ ys)"
      using chain_link [OF xs(1) True n ys m] .
    ultimately show ?thesis unfolding chain_in_def by blast
  next
    case False
    then have "chain (h(m := (h m)\<lparr>c_next := v\<rparr>)) c xs" using chain_unlinked [OF xs(1)] by simp
    then show ?thesis using xs(2) unfolding chain_in_def by blast
  qed
qed

lemma chain_in_frame:
  assumes g: "chain_in h lab lo hi e c"
    and f: "\<forall>a. lo \<le> a \<and> a < hi \<longrightarrow> c_next (h' a) = c_next (h a) \<and> lab' a = lab a"
    and le: "hi \<le> hi'"
  shows "chain_in h' lab' lo hi' e c"
proof -
  from g obtain xs where xs: "chain h c xs" "\<forall>a\<in>set xs. lo \<le> a \<and> a < hi \<and> lab a = e"
    unfolding chain_in_def by blast
  have "chain h' c xs" using xs f by (intro chain_agree [OF xs(1)]) blast
  moreover have "\<forall>a\<in>set xs. lo \<le> a \<and> a < hi' \<and> lab' a = e"
  proof
    fix a assume a: "a \<in> set xs"
    then have "lo \<le> a \<and> a < hi \<and> lab a = e" using xs(2) by blast
    then show "lo \<le> a \<and> a < hi' \<and> lab' a = e" using f le by auto
  qed
  ultimately show ?thesis unfolding chain_in_def by blast
qed

lemma build_chains_Cons: "build_chains (t # rest) st = build_chains rest (chain_step t st)"
  by (simp add: chain_step_def Let_def split: option.splits)

lemma chain_in_head: "chain_in h lab lo hi d (Some n) \<Longrightarrow> lo \<le> n \<and> n < hi \<and> lab n = d"
  unfolding chain_in_def
proof -
  assume "\<exists>xs. chain h (Some n) xs \<and> (\<forall>a\<in>set xs. lo \<le> a \<and> a < hi \<and> lab a = d)"
  then obtain xs where xs: "chain h (Some n) xs" "\<forall>a\<in>set xs. lo \<le> a \<and> a < hi \<and> lab a = d" by blast
  then have "n \<in> set xs" by (cases xs) simp_all
  then show ?thesis using xs(2) by blast
qed

lemma tracons_ok_frame:
  assumes ok: "tracons_ok T n0 k0 pre lab h u tr"
    and f: "\<forall>a<u. c_next (h' a) = c_next (h a) \<and> lab' a = lab a"
    and le: "u \<le> u'" "k0 \<le> u" and pre: "pre \<subseteq> pre'"
  shows "tracons_ok T n0 k0 pre' lab' h' u' tr"
  unfolding tracons_ok_def
proof (intro allI impI)
  fix ta n assume tr: "tr ta = Some n"
  from ok tr have 1: "\<exists>t\<in>T. t_addr t = ta \<and> lab n = idir_of t"
    and 2: "if n < k0 then chain_in h lab n0 k0 (lab n) (Some n)
            else ta \<in> pre \<and> chain_in h lab n0 u (lab n) (Some n)"
    unfolding tracons_ok_def by blast+
  have nu: "n < u"
  proof (cases "n < k0")
    case True
    then show ?thesis using le(2) by simp
  next
    case False
    then have "chain_in h lab n0 u (lab n) (Some n)" using 2 by simp
    then show ?thesis using chain_in_head by blast
  qed
  then have ln: "lab' n = lab n" using f by simp
  have f1: "\<forall>a. n0 \<le> a \<and> a < k0 \<longrightarrow> c_next (h' a) = c_next (h a) \<and> lab' a = lab a"
    using f le(2) by auto
  have f2: "\<forall>a. n0 \<le> a \<and> a < u \<longrightarrow> c_next (h' a) = c_next (h a) \<and> lab' a = lab a"
    using f by auto
  have "if n < k0 then chain_in h' lab' n0 k0 (lab' n) (Some n)
        else ta \<in> pre' \<and> chain_in h' lab' n0 u' (lab' n) (Some n)"
  proof (cases "n < k0")
    case True
    then have "chain_in h lab n0 k0 (lab n) (Some n)" using 2 by simp
    from chain_in_frame [OF this f1 le_refl] True ln show ?thesis by simp
  next
    case False
    then have g: "chain_in h lab n0 u (lab n) (Some n)" and p: "ta \<in> pre" using 2 by simp_all
    from chain_in_frame [OF g f2 le(1)] False ln p pre show ?thesis by auto
  qed
  then show "(\<exists>t\<in>T. t_addr t = ta \<and> lab' n = idir_of t) \<and>
     (if n < k0 then chain_in h' lab' n0 k0 (lab' n) (Some n)
      else ta \<in> pre' \<and> chain_in h' lab' n0 u' (lab' n) (Some n))"
    using 1 ln by simp
qed

lemma tracons_ok_link:
  assumes ok: "tracons_ok T n0 k0 pre lab h u tr"
    and n: "c_next (h m) = None" and m: "k0 \<le> m" and ys: "chain h v ys" and mys: "m \<notin> set ys"
    and l: "\<forall>a\<in>set ys. n0 \<le> a \<and> a < u \<and> lab a = lab m"
  shows "tracons_ok T n0 k0 pre lab (h(m := (h m)\<lparr>c_next := v\<rparr>)) u tr"
  unfolding tracons_ok_def
proof (intro allI impI)
  let ?h = "h(m := (h m)\<lparr>c_next := v\<rparr>)"
  fix ta n assume tr: "tr ta = Some n"
  from ok tr have 1: "\<exists>t\<in>T. t_addr t = ta \<and> lab n = idir_of t"
    and 2: "if n < k0 then chain_in h lab n0 k0 (lab n) (Some n)
            else ta \<in> pre \<and> chain_in h lab n0 u (lab n) (Some n)"
    unfolding tracons_ok_def by blast+
  have "if n < k0 then chain_in ?h lab n0 k0 (lab n) (Some n)
        else ta \<in> pre \<and> chain_in ?h lab n0 u (lab n) (Some n)"
  proof (cases "n < k0")
    case True
    then have g: "chain_in h lab n0 k0 (lab n) (Some n)" using 2 by simp
    have fr: "\<forall>a. n0 \<le> a \<and> a < k0 \<longrightarrow> c_next (?h a) = c_next (h a) \<and> lab a = lab a"
      using m by auto
    have "chain_in ?h lab n0 k0 (lab n) (Some n)" by (rule chain_in_frame [OF g fr le_refl])
    then show ?thesis using True by simp
  next
    case False
    then have g: "chain_in h lab n0 u (lab n) (Some n)" and p: "ta \<in> pre" using 2 by simp_all
    from chain_in_link [OF g n ys mys l] False p show ?thesis by simp
  qed
  then show "(\<exists>t\<in>T. t_addr t = ta \<and> lab n = idir_of t) \<and>
     (if n < k0 then chain_in ?h lab n0 k0 (lab n) (Some n)
      else ta \<in> pre \<and> chain_in ?h lab n0 u (lab n) (Some n))"
    using 1 by simp
qed

lemma jet_ok_frame:
  assumes ok: "jet_ok n0 k0 lab h u d is_tr j hd0"
    and f: "\<forall>a<u. c_next (h' a) = c_next (h a) \<and> lab' a = lab a"
    and le: "u \<le> u'"
  shows "jet_ok n0 k0 lab' h' u' d is_tr j hd0"
proof (cases is_tr)
  case True
  then have g: "chain_in h lab n0 u d hd0" using ok by (simp add: jet_ok_def)
  have "\<forall>a. n0 \<le> a \<and> a < u \<longrightarrow> c_next (h' a) = c_next (h a) \<and> lab' a = lab a" using f by auto
  from chain_in_frame [OF g this le] True show ?thesis by (simp add: jet_ok_def)
next
  case False
  show ?thesis
  proof (cases j)
    case Dis_field
    then show ?thesis using ok False by (simp add: jet_ok_def)
  next
    case (Next_field m)
    then obtain xs where xs: "chain h hd0 xs" "xs \<noteq> []" "last xs = m"
      "\<forall>a\<in>set xs. k0 \<le> a \<and> a < u \<and> lab a = d"
      using ok False by (auto simp: jet_ok_def)
    have "chain h' hd0 xs" using xs(4) f by (intro chain_agree [OF xs(1)]) auto
    moreover have "\<forall>a\<in>set xs. k0 \<le> a \<and> a < u' \<and> lab' a = d"
    proof
      fix a assume "a \<in> set xs"
      then have "k0 \<le> a \<and> a < u \<and> lab a = d" using xs(4) by blast
      then show "k0 \<le> a \<and> a < u' \<and> lab' a = d" using f le by auto
    qed
    ultimately show ?thesis using xs(2,3) False Next_field by (auto simp: jet_ok_def)
  qed
qed

lemma jet_ok_link:
  assumes ok: "jet_ok n0 k0 lab h u d is_tr j hd0"
    and n: "c_next (h m) = None" and ys: "chain h v ys" and mys: "m \<notin> set ys"
    and l: "\<forall>a\<in>set ys. n0 \<le> a \<and> a < u \<and> lab a = lab m" and lm: "lab m \<noteq> d"
  shows "jet_ok n0 k0 lab (h(m := (h m)\<lparr>c_next := v\<rparr>)) u d is_tr j hd0"
proof (cases is_tr)
  case True
  then have g: "chain_in h lab n0 u d hd0" using ok by (simp add: jet_ok_def)
  from chain_in_link [OF g n ys mys l] True show ?thesis by (simp add: jet_ok_def)
next
  case False
  show ?thesis
  proof (cases j)
    case Dis_field
    then show ?thesis using ok False by (simp add: jet_ok_def)
  next
    case (Next_field m2)
    then obtain xs where xs: "chain h hd0 xs" "xs \<noteq> []" "last xs = m2"
      "\<forall>a\<in>set xs. k0 \<le> a \<and> a < u \<and> lab a = d"
      using ok False by (auto simp: jet_ok_def)
    have "m \<notin> set xs" using xs(4) lm by blast
    then have "chain (h(m := (h m)\<lparr>c_next := v\<rparr>)) hd0 xs" using chain_unlinked [OF xs(1)] by simp
    then show ?thesis using xs(2,3,4) False Next_field by (auto simp: jet_ok_def)
  qed
qed

lemma store_jet_fields [simp]:
  "bd_connectors_used (store_jet d v st) = bd_connectors_used st"
  "bd_tracon (store_jet d v st) = bd_tracon st"
  "bd_jet (store_jet d v st) = bd_jet st"
  "bd_is_tracon (store_jet d v st) = bd_is_tracon st"
  by (simp_all add: store_jet_def split: jet.splits)

lemma store_jet_Dis:
  "bd_jet st d = Dis_field \<Longrightarrow> bd_connectors (store_jet d v st) = bd_connectors st"
  "bd_jet st d = Dis_field \<Longrightarrow> bd_head (store_jet d v st) d' = (if d' = d then v else bd_head st d')"
  by (auto simp: store_jet_def bd_head_def)

lemma store_jet_Next:
  "bd_jet st d = Next_field m \<Longrightarrow>
   bd_connectors (store_jet d v st) = (bd_connectors st)(m := (bd_connectors st m)\<lparr>c_next := v\<rparr>)"
  "bd_jet st d = Next_field m \<Longrightarrow> bd_head (store_jet d v st) d' = bd_head st d'"
  by (auto simp: store_jet_def bd_head_def)

lemma tracons_ok_add:
  assumes ok: "tracons_ok T n0 k0 pre lab h u tr" and t: "t \<in> T" and l: "lab n = idir_of t"
    and n: "\<not> n < k0" and p: "t_addr t \<in> pre" and g: "chain_in h lab n0 u (lab n) (Some n)"
  shows "tracons_ok T n0 k0 pre lab h u (tr(t_addr t \<mapsto> n))"
  unfolding tracons_ok_def
proof (intro allI impI)
  fix ta n1 assume a: "(tr(t_addr t \<mapsto> n)) ta = Some n1"
  show "(\<exists>t\<in>T. t_addr t = ta \<and> lab n1 = idir_of t) \<and>
     (if n1 < k0 then chain_in h lab n0 k0 (lab n1) (Some n1)
      else ta \<in> pre \<and> chain_in h lab n0 u (lab n1) (Some n1))"
  proof (cases "ta = t_addr t")
    case True
    then have "n1 = n" using a by simp
    then show ?thesis using True t l n p g by auto
  next
    case False
    then have "tr ta = Some n1" using a by simp
    then show ?thesis using ok unfolding tracons_ok_def by blast
  qed
qed

lemma store_jet_inv:
  assumes tr: "tracons_ok T n0 k0 pre lab (bd_connectors st) (bd_connectors_used st) (bd_tracon st)"
    and jets: "\<forall>d'. jet_ok n0 k0 lab (bd_connectors st) (bd_connectors_used st) d'
                  (bd_is_tracon st d') (bd_jet st d') (bd_head st d')"
    and nt: "\<not> bd_is_tracon st d"
    and ys: "chain (bd_connectors st) v ys"
      "\<forall>a\<in>set ys. n0 \<le> a \<and> a < bd_connectors_used st \<and> lab a = d"
    and free: "\<forall>m. bd_jet st d = Next_field m \<longrightarrow> m \<notin> set ys"
  shows "tracons_ok T n0 k0 pre lab (bd_connectors (store_jet d v st)) (bd_connectors_used st)
           (bd_tracon st)"
    and "jet_ok n0 k0 lab (bd_connectors (store_jet d v st)) (bd_connectors_used st) (\<not> d)
           (bd_is_tracon st (\<not> d)) (bd_jet st (\<not> d)) (bd_head (store_jet d v st) (\<not> d))"
    and "\<exists>xs. chain (bd_connectors (store_jet d v st)) (bd_head (store_jet d v st) d) (xs @ ys) \<and>
           (\<forall>a\<in>set xs. k0 \<le> a \<and> a < bd_connectors_used st \<and> lab a = d)"
    and "\<forall>a<k0. bd_connectors (store_jet d v st) a = bd_connectors st a"
proof -
  let ?h = "bd_connectors st" and ?u = "bd_connectors_used st"
  let ?st = "store_jet d v st"
  have all: "tracons_ok T n0 k0 pre lab (bd_connectors ?st) ?u (bd_tracon st) \<and>
     jet_ok n0 k0 lab (bd_connectors ?st) ?u (\<not> d) (bd_is_tracon st (\<not> d)) (bd_jet st (\<not> d))
        (bd_head ?st (\<not> d)) \<and>
     (\<exists>xs. chain (bd_connectors ?st) (bd_head ?st d) (xs @ ys) \<and>
           (\<forall>a\<in>set xs. k0 \<le> a \<and> a < ?u \<and> lab a = d)) \<and>
     (\<forall>a<k0. bd_connectors ?st a = ?h a)"
  proof (cases "bd_jet st d")
    case Dis_field
    have h: "bd_connectors ?st = ?h" and hd0: "bd_head ?st d = v" "bd_head ?st (\<not> d) = bd_head st (\<not> d)"
      using store_jet_Dis [OF Dis_field] by simp_all
    have "chain ?h v ([] @ ys)" using ys(1) by simp
    then have 3: "\<exists>xs. chain ?h v (xs @ ys) \<and> (\<forall>a\<in>set xs. k0 \<le> a \<and> a < ?u \<and> lab a = d)"
      by (intro exI [of _ "[]"]) simp
    have 2: "jet_ok n0 k0 lab ?h ?u (\<not> d) (bd_is_tracon st (\<not> d)) (bd_jet st (\<not> d))
        (bd_head st (\<not> d))" using jets by (rule spec)
    show ?thesis unfolding h hd0 by (intro conjI tr 2 3) simp
  next
    case (Next_field m)
    have h: "bd_connectors ?st = ?h(m := (?h m)\<lparr>c_next := v\<rparr>)"
      and hd0: "bd_head ?st d = bd_head st d" "bd_head ?st (\<not> d) = bd_head st (\<not> d)"
      using store_jet_Next [OF Next_field] by simp_all
    have "jet_ok n0 k0 lab ?h ?u d (bd_is_tracon st d) (bd_jet st d) (bd_head st d)"
      using jets by (rule spec)
    then have "\<exists>xs. chain ?h (bd_head st d) xs \<and> xs \<noteq> [] \<and> last xs = m \<and>
        (\<forall>a\<in>set xs. k0 \<le> a \<and> a < ?u \<and> lab a = d)"
      using nt Next_field by (simp add: jet_ok_def)
    then obtain xs where xs: "chain ?h (bd_head st d) xs" "xs \<noteq> []" "last xs = m"
      "\<forall>a\<in>set xs. k0 \<le> a \<and> a < ?u \<and> lab a = d"
      by blast
    have mx: "m \<in> set xs" using xs(2,3) last_in_set by blast
    then have m: "k0 \<le> m" "lab m = d" using xs(4) by blast+
    have nx: "c_next (?h m) = None" using chain_last_next [OF xs(1,2)] xs(3) by simp
    have my: "m \<notin> set ys" using free Next_field by simp
    have l: "\<forall>a\<in>set ys. n0 \<le> a \<and> a < ?u \<and> lab a = lab m" using ys(2) m(2) by simp
    have 1: "tracons_ok T n0 k0 pre lab (?h(m := (?h m)\<lparr>c_next := v\<rparr>)) ?u (bd_tracon st)"
      using tracons_ok_link [OF tr nx m(1) ys(1) my l] .
    have "lab m \<noteq> (\<not> d)" using m(2) by simp
    have jn: "jet_ok n0 k0 lab ?h ?u (\<not> d) (bd_is_tracon st (\<not> d)) (bd_jet st (\<not> d))
        (bd_head st (\<not> d))" using jets by (rule spec)
    from jet_ok_link [OF jn nx ys(1) my l \<open>lab m \<noteq> (\<not> d)\<close>]
    have 2: "jet_ok n0 k0 lab (?h(m := (?h m)\<lparr>c_next := v\<rparr>)) ?u (\<not> d) (bd_is_tracon st (\<not> d))
        (bd_jet st (\<not> d)) (bd_head st (\<not> d))" .
    have 3: "chain (?h(m := (?h m)\<lparr>c_next := v\<rparr>)) (bd_head st d) (xs @ ys)"
      using chain_link [OF xs(1) mx nx ys(1) my] .
    have 4: "\<forall>a<k0. (?h(m := (?h m)\<lparr>c_next := v\<rparr>)) a = ?h a" using m(1) by simp
    have 5: "\<exists>xs. chain (?h(m := (?h m)\<lparr>c_next := v\<rparr>)) (bd_head st d) (xs @ ys) \<and>
           (\<forall>a\<in>set xs. k0 \<le> a \<and> a < ?u \<and> lab a = d)"
      using 3 xs(4) by (intro exI [of _ xs]) simp
    show ?thesis unfolding h hd0 by (intro conjI 1 2 5 4)
  qed
  show "tracons_ok T n0 k0 pre lab (bd_connectors ?st) ?u (bd_tracon st)" using all by blast
  show "jet_ok n0 k0 lab (bd_connectors ?st) ?u (\<not> d) (bd_is_tracon st (\<not> d)) (bd_jet st (\<not> d))
        (bd_head ?st (\<not> d))" using all by blast
  show "\<exists>xs. chain (bd_connectors ?st) (bd_head ?st d) (xs @ ys) \<and>
           (\<forall>a\<in>set xs. k0 \<le> a \<and> a < ?u \<and> lab a = d)" using all by blast
  show "\<forall>a<k0. bd_connectors ?st a = ?h a" using all by blast
qed

lemma bd_head_simps [simp]:
  "bd_head (st\<lparr>bd_is_tracon := x\<rparr>) d = bd_head st d"
  "bd_head (st\<lparr>bd_jet := j\<rparr>) d = bd_head st d"
  "bd_head (st\<lparr>bd_connectors := h\<rparr>) d = bd_head st d"
  "bd_head (st\<lparr>bd_connectors_used := u\<rparr>) d = bd_head st d"
  "bd_head (st\<lparr>bd_tracon := tr\<rparr>) d = bd_head st d"
  by (simp_all add: bd_head_def)

lemma chain_step_inv:
  assumes inv: "chains_inv T n0 k0 pre lab st" and t: "t \<in> T"
    and coh: "\<forall>t\<in>T. \<forall>t'\<in>T. t_addr t = t_addr t' \<longrightarrow> idir_of t = idir_of t'"
    and tn: "t_tracon t = None" and np: "t_addr t \<notin> pre"
  shows "\<exists>lab'. (\<forall>a<bd_connectors_used st. lab' a = lab a) \<and>
     chains_inv T n0 k0 (insert (t_addr t) pre) lab' (chain_step t st) \<and>
     (\<forall>a<k0. bd_connectors (chain_step t st) a = bd_connectors st a) \<and>
     bd_connectors_used st \<le> bd_connectors_used (chain_step t st)"
proof -
  let ?h = "bd_connectors st" and ?u = "bd_connectors_used st"
  let ?d = "idir_of t"
  let ?pre = "insert (t_addr t) pre"
  from inv have b: "n0 \<le> k0" "k0 \<le> ?u"
    and tr: "tracons_ok T n0 k0 pre lab ?h ?u (bd_tracon st)"
    and jets: "\<forall>d. jet_ok n0 k0 lab ?h ?u d (bd_is_tracon st d) (bd_jet st d) (bd_head st d)"
    unfolding chains_inv_def by simp_all
  have frame0: "\<forall>a<?u. c_next (?h a) = c_next (?h a) \<and> lab a = lab a" by simp
  have tr': "tracons_ok T n0 k0 ?pre lab ?h ?u (bd_tracon st)"
    by (rule tracons_ok_frame [OF tr frame0 le_refl b(2)]) auto
  show ?thesis
  proof (cases "bd_is_tracon st ?d")
    case True
    then have s: "chain_step t st = st" by (simp add: chain_step_def idir_of_def)
    have "chains_inv T n0 k0 ?pre lab st"
      unfolding chains_inv_def using b tr' jets by simp
    then show ?thesis unfolding s by (intro exI [of _ lab]) simp
  next
    case False
    note nt = False
    show ?thesis
    proof (cases "bd_tracon st (t_addr t)")
      case (Some n)
      then have to: "tracon_of st t = Some n" by (simp add: tracon_of_def)
      let ?st1 = "store_jet ?d (Some n) st"
      have s: "chain_step t st = ?st1\<lparr>bd_is_tracon := (bd_is_tracon st)(?d := True)\<rparr>"
        using nt to by (simp add: chain_step_def idir_of_def Let_def)
      from tr Some obtain t' where t': "t' \<in> T" "t_addr t' = t_addr t" "lab n = idir_of t'"
        unfolding tracons_ok_def by blast
      have ln: "lab n = ?d" using coh t t' by metis
      have nk: "n < k0"
      proof (rule ccontr)
        assume "\<not> n < k0"
        then have "t_addr t \<in> pre" using tr Some unfolding tracons_ok_def by (metis (full_types))
        then show False using np by simp
      qed
      then have "chain_in ?h lab n0 k0 (lab n) (Some n)"
        using tr Some unfolding tracons_ok_def by (metis (full_types))
      then obtain ys where ys: "chain ?h (Some n) ys" "\<forall>a\<in>set ys. n0 \<le> a \<and> a < k0 \<and> lab a = ?d"
        unfolding chain_in_def ln by blast
      have ys2: "\<forall>a\<in>set ys. n0 \<le> a \<and> a < ?u \<and> lab a = ?d" using ys(2) b(2) by auto
      have free: "\<forall>m. bd_jet st ?d = Next_field m \<longrightarrow> m \<notin> set ys"
      proof (intro allI impI)
        fix m assume j: "bd_jet st ?d = Next_field m"
        have "jet_ok n0 k0 lab ?h ?u ?d (bd_is_tracon st ?d) (bd_jet st ?d) (bd_head st ?d)"
          using jets by (rule spec)
        then have "\<exists>xs. chain ?h (bd_head st ?d) xs \<and> xs \<noteq> [] \<and> last xs = m \<and>
            (\<forall>a\<in>set xs. k0 \<le> a \<and> a < ?u \<and> lab a = ?d)"
          using nt j by (simp add: jet_ok_def)
        then obtain xs where xs: "xs \<noteq> []" "last xs = m" "\<forall>a\<in>set xs. k0 \<le> a \<and> a < ?u \<and> lab a = ?d"
          by blast
        then have "m \<in> set xs" using last_in_set by blast
        then have "k0 \<le> m" using xs(3) by blast
        then show "m \<notin> set ys" using ys(2) by auto
      qed
      note sj = store_jet_inv [OF tr' jets nt ys(1) ys2 free]
      from sj(3) obtain xs where xs: "chain (bd_connectors ?st1) (bd_head ?st1 ?d) (xs @ ys)"
        "\<forall>a\<in>set xs. k0 \<le> a \<and> a < ?u \<and> lab a = ?d" by blast
      have "\<forall>a\<in>set (xs @ ys). n0 \<le> a \<and> a < ?u \<and> lab a = ?d"
        using xs(2) ys2 b(1) by auto
      then have gd: "chain_in (bd_connectors ?st1) lab n0 ?u ?d (bd_head ?st1 ?d)"
        unfolding chain_in_def using xs(1) by blast
      have j: "jet_ok n0 k0 lab (bd_connectors ?st1) ?u d
            (((bd_is_tracon st)(?d := True)) d) (bd_jet st d) (bd_head ?st1 d)" for d
      proof (cases "d = ?d")
        case True
        then show ?thesis using gd by (simp add: jet_ok_def)
      next
        case False
        then have "d = (\<not> ?d)" by auto
        then show ?thesis using sj(2) by simp
      qed
      have "chains_inv T n0 k0 ?pre lab (chain_step t st)"
        unfolding chains_inv_def s using b sj(1) j by simp
      then show ?thesis using sj(4) unfolding s by (intro exI [of _ lab]) simp
    next
      case None
      then have to: "tracon_of st t = None" using tn by (simp add: tracon_of_def)
      let ?n = "?u"
      let ?cell = "zero_connector\<lparr>c_desc := e_condesc (t_e t), c_exp_pos := e_pos (t_e t),
          c_multi := e_multi (t_e t), c_farthest_word := e_farthest_word (t_e t)\<rparr>"
      define lab' where "lab' = lab(?n := ?d)"
      define h3 where "h3 = ?h(?n := ?cell)"
      let ?st3 = "st\<lparr>bd_connectors_used := Suc ?n,
          bd_tracon := (bd_tracon st)(t_addr t \<mapsto> ?n), bd_connectors := h3\<rparr>"
      let ?st4 = "store_jet ?d (Some ?n) ?st3"
      have s: "chain_step t st = ?st4\<lparr>bd_jet := (bd_jet st)(?d := Next_field ?n)\<rparr>"
        using nt to by (simp add: chain_step_def idir_of_def Let_def h3_def)
      have cn: "c_next (h3 ?n) = None" by (simp add: zero_connector_def h3_def)
      have ln: "lab' ?n = ?d" by (simp add: lab'_def)
      have frame: "\<forall>a<?u. c_next (h3 a) = c_next (?h a) \<and> lab' a = lab a"
        by (simp add: h3_def lab'_def)
      have h3old: "\<forall>a<?u. h3 a = ?h a" by (simp add: h3_def)
      have g: "chain_in h3 lab' n0 (Suc ?n) (lab' ?n) (Some ?n)"
        unfolding chain_in_def using cn b by (intro exI [of _ "[?n]"]) simp
      have t0: "tracons_ok T n0 k0 ?pre lab' h3 (Suc ?n) (bd_tracon st)"
        by (rule tracons_ok_frame [OF tr frame _ b(2)]) auto
      have "tracons_ok T n0 k0 ?pre lab' h3 (Suc ?n) ((bd_tracon st)(t_addr t \<mapsto> ?n))"
        using b(2) ln by (intro tracons_ok_add [OF t0 t _ _ _ g]) simp_all
      then have tr3: "tracons_ok T n0 k0 ?pre lab' (bd_connectors ?st3) (bd_connectors_used ?st3)
          (bd_tracon ?st3)" by simp
      have jets3: "\<forall>d. jet_ok n0 k0 lab' (bd_connectors ?st3) (bd_connectors_used ?st3) d
            (bd_is_tracon ?st3 d) (bd_jet ?st3 d) (bd_head ?st3 d)"
      proof
        fix d
        have "jet_ok n0 k0 lab ?h ?u d (bd_is_tracon st d) (bd_jet st d) (bd_head st d)"
          using jets by (rule spec)
        then have "jet_ok n0 k0 lab' h3 (Suc ?n) d (bd_is_tracon st d) (bd_jet st d)
            (bd_head st d)"
          by (rule jet_ok_frame [OF _ frame]) simp
        then show "jet_ok n0 k0 lab' (bd_connectors ?st3) (bd_connectors_used ?st3) d
            (bd_is_tracon ?st3 d) (bd_jet ?st3 d) (bd_head ?st3 d)" by simp
      qed
      have nt3: "\<not> bd_is_tracon ?st3 ?d" using nt by simp
      have ys: "chain (bd_connectors ?st3) (Some ?n) [?n]" using cn by simp
      have ys2: "\<forall>a\<in>set [?n]. n0 \<le> a \<and> a < bd_connectors_used ?st3 \<and> lab' a = ?d"
        using b ln by simp
      have free: "\<forall>m. bd_jet ?st3 ?d = Next_field m \<longrightarrow> m \<notin> set [?n]"
      proof (intro allI impI)
        fix m assume j: "bd_jet ?st3 ?d = Next_field m"
        have "jet_ok n0 k0 lab ?h ?u ?d (bd_is_tracon st ?d) (bd_jet st ?d) (bd_head st ?d)"
          using jets by (rule spec)
        then have "\<exists>xs. chain ?h (bd_head st ?d) xs \<and> xs \<noteq> [] \<and> last xs = m \<and>
            (\<forall>a\<in>set xs. k0 \<le> a \<and> a < ?u \<and> lab a = ?d)"
          using nt j by (simp add: jet_ok_def)
        then obtain xs where xs: "xs \<noteq> []" "last xs = m" "\<forall>a\<in>set xs. k0 \<le> a \<and> a < ?u \<and> lab a = ?d"
          by blast
        then have "m \<in> set xs" using last_in_set by blast
        then have "m < ?u" using xs(3) by blast
        then show "m \<notin> set [?n]" by simp
      qed
      note sj = store_jet_inv [OF tr3 jets3 nt3 ys ys2 free]
      from sj(3) obtain xs where xs: "chain (bd_connectors ?st4) (bd_head ?st4 ?d) (xs @ [?n])"
        "\<forall>a\<in>set xs. k0 \<le> a \<and> a < Suc ?n \<and> lab' a = ?d" by auto
      have "xs @ [?n] \<noteq> [] \<and> last (xs @ [?n]) = ?n \<and>
          (\<forall>a\<in>set (xs @ [?n]). k0 \<le> a \<and> a < Suc ?n \<and> lab' a = ?d)"
        using xs(2) b(2) ln by simp
      then have jd: "jet_ok n0 k0 lab' (bd_connectors ?st4) (Suc ?n) ?d False (Next_field ?n)
          (bd_head ?st4 ?d)"
        unfolding jet_ok_def using xs(1) by (simp del: set_append last_snoc, intro exI [of _ "xs @ [?n]"]) blast
      have jn: "jet_ok n0 k0 lab' (bd_connectors ?st4) (Suc ?n) (\<not> ?d)
            (bd_is_tracon st (\<not> ?d)) (bd_jet st (\<not> ?d)) (bd_head ?st4 (\<not> ?d))"
        using sj(2) by simp
      have j: "jet_ok n0 k0 lab' (bd_connectors ?st4) (Suc ?n) d
            (bd_is_tracon st d) (((bd_jet st)(?d := Next_field ?n)) d) (bd_head ?st4 d)" for d
      proof (cases "d = ?d")
        case True
        then show ?thesis using jd nt by simp
      next
        case False
        then have "d = (\<not> ?d)" by auto
        then show ?thesis using jn by simp
      qed
      have t4: "tracons_ok T n0 k0 ?pre lab' (bd_connectors ?st4) (Suc ?n)
          ((bd_tracon st)(t_addr t \<mapsto> ?n))" using sj(1) by simp
      have "chains_inv T n0 k0 ?pre lab' (chain_step t st)"
        unfolding chains_inv_def s using b t4 j by simp
      moreover have "\<forall>a<k0. bd_connectors (chain_step t st) a = bd_connectors st a"
        unfolding s using sj(4) b(2) h3old by simp
      moreover have "\<forall>a<?u. lab' a = lab a" using frame by simp
      moreover have "?u \<le> bd_connectors_used (chain_step t st)" unfolding s by simp
      ultimately show ?thesis by blast
    qed
  qed
qed

lemma build_chains_inv:
  assumes "chains_inv T n0 k0 pre lab st" and "set ts \<subseteq> T"
    and coh: "\<forall>t\<in>T. \<forall>t'\<in>T. t_addr t = t_addr t' \<longrightarrow> idir_of t = idir_of t'"
    and tn: "\<forall>t\<in>T. t_tracon t = None"
    and "distinct (map t_addr ts)" and "t_addr ` set ts \<inter> pre = {}"
  shows "\<exists>lab' pre'. (\<forall>a<bd_connectors_used st. lab' a = lab a) \<and>
     chains_inv T n0 k0 pre' lab' (build_chains ts st) \<and>
     (\<forall>a<k0. bd_connectors (build_chains ts st) a = bd_connectors st a) \<and>
     bd_connectors_used st \<le> bd_connectors_used (build_chains ts st)"
  using assms(1,2,5,6)
proof (induction ts arbitrary: st pre lab)
  case Nil
  then show ?case by (intro exI [of _ lab] exI [of _ pre]) simp
next
  case (Cons t rest)
  have t: "t \<in> T" and tt: "t_tracon t = None" and np: "t_addr t \<notin> pre"
    using Cons.prems(2,4) tn by auto
  from chain_step_inv [OF Cons.prems(1) t coh tt np] obtain lab1 where
    1: "\<forall>a<bd_connectors_used st. lab1 a = lab a"
    "chains_inv T n0 k0 (insert (t_addr t) pre) lab1 (chain_step t st)"
    "\<forall>a<k0. bd_connectors (chain_step t st) a = bd_connectors st a"
    "bd_connectors_used st \<le> bd_connectors_used (chain_step t st)" by blast
  have r: "set rest \<subseteq> T" "distinct (map t_addr rest)"
    "t_addr ` set rest \<inter> insert (t_addr t) pre = {}"
    using Cons.prems(2,3,4) by auto
  from Cons.IH [OF 1(2) r] obtain lab2 pre2 where
    2: "\<forall>a<bd_connectors_used (chain_step t st). lab2 a = lab1 a"
    "chains_inv T n0 k0 pre2 lab2 (build_chains rest (chain_step t st))"
    "\<forall>a<k0. bd_connectors (build_chains rest (chain_step t st)) a = bd_connectors (chain_step t st) a"
    "bd_connectors_used (chain_step t st) \<le> bd_connectors_used (build_chains rest (chain_step t st))"
    by blast
  have "\<forall>a<bd_connectors_used st. lab2 a = lab a" using 1(1,4) 2(1) by auto
  moreover have "\<forall>a<k0. bd_connectors (build_chains rest (chain_step t st)) a = bd_connectors st a"
    using 1(3) 2(3) by simp
  moreover have "bd_connectors_used st \<le> bd_connectors_used (build_chains rest (chain_step t st))"
    using 1(4) 2(4) by simp
  ultimately show ?case unfolding build_chains_Cons using 2(2) by blast
qed

lemma jet_ok_chain_in:
  assumes "jet_ok n0 k0 lab h u d is_tr j hd0" and "n0 \<le> k0"
  shows "chain_in h lab n0 u d hd0"
proof (cases is_tr)
  case True
  then show ?thesis using assms(1) by (simp add: jet_ok_def)
next
  case False
  show ?thesis
  proof (cases j)
    case Dis_field
    then show ?thesis using assms(1) False by (simp add: jet_ok_def)
  next
    case (Next_field m)
    then obtain xs where xs: "chain h hd0 xs" "\<forall>a\<in>set xs. k0 \<le> a \<and> a < u \<and> lab a = d"
      using assms(1) False by (auto simp: jet_ok_def)
    have "\<forall>a\<in>set xs. n0 \<le> a \<and> a < u \<and> lab a = d" using xs(2) assms(2) by auto
    then show ?thesis unfolding chain_in_def using xs(1) by blast
  qed
qed

lemma tracons_ok_close:
  assumes ok: "tracons_ok T n0 k0 pre lab h u tr" and le: "k0 \<le> u"
  shows "tracons_ok T n0 u {} lab h u tr"
  unfolding tracons_ok_def
proof (intro allI impI)
  fix ta n assume tr: "tr ta = Some n"
  from ok tr have 1: "\<exists>t\<in>T. t_addr t = ta \<and> lab n = idir_of t"
    and 2: "if n < k0 then chain_in h lab n0 k0 (lab n) (Some n)
            else ta \<in> pre \<and> chain_in h lab n0 u (lab n) (Some n)"
    unfolding tracons_ok_def by blast+
  have g: "chain_in h lab n0 u (lab n) (Some n)"
  proof (cases "n < k0")
    case True
    then have "chain_in h lab n0 k0 (lab n) (Some n)" using 2 by simp
    then show ?thesis by (rule chain_in_frame [OF _ _ le]) simp
  next
    case False
    then show ?thesis using 2 by simp
  qed
  then have "n < u" using chain_in_head by blast
  then show "(\<exists>t\<in>T. t_addr t = ta \<and> lab n = idir_of t) \<and>
     (if n < u then chain_in h lab n0 u (lab n) (Some n)
      else ta \<in> {} \<and> chain_in h lab n0 u (lab n) (Some n))"
    using 1 g by simp
qed

lemma finish_disjunct_chains:
  "finish_disjunct par cl n ndis = Inr d \<Longrightarrow> d_left d = d_left ndis \<and> d_right d = d_right ndis"
  by (auto simp: finish_disjunct_def Let_def split: if_splits)

lemma build_disjunct_inv:
  assumes "build_disjunct par cls dis st = Inr (dis', st')" and "disjuncts_inv T n0 lab st dis"
    and cls: "\<forall>cl\<in>set cls. set (cl_c cl) \<subseteq> T \<and> distinct (map t_addr (cl_c cl))"
    and coh: "\<forall>t\<in>T. \<forall>t'\<in>T. t_addr t = t_addr t' \<longrightarrow> idir_of t = idir_of t'"
    and tn: "\<forall>t\<in>T. t_tracon t = None"
  shows "\<exists>lab'. (\<forall>a<bd_connectors_used st. lab' a = lab a) \<and> disjuncts_inv T n0 lab' st' dis' \<and>
     (\<forall>a<bd_connectors_used st. bd_connectors st' a = bd_connectors st a) \<and>
     bd_connectors_used st \<le> bd_connectors_used st'"
  using assms(1,2,3)
proof (induction cls arbitrary: dis st lab)
  case Nil
  then show ?case by (intro exI [of _ lab]) simp
next
  case (Cons cl rest)
  have rest: "\<forall>cl\<in>set rest. set (cl_c cl) \<subseteq> T \<and> distinct (map t_addr (cl_c cl))"
    using Cons.prems(3) by simp
  show ?case
  proof (cases "cl_c cl = [] \<or> fgt (cl_totcost cl) (p_cost_cutoff par)")
    case True
    then have "build_disjunct par rest dis st = Inr (dis', st')"
      using Cons.prems(1) by (auto split: if_splits)
    from Cons.IH [OF this Cons.prems(2) rest] show ?thesis .
  next
    case False
    let ?h = "bd_connectors st" and ?u = "bd_connectors_used st"
    let ?n = "bd_disjuncts_used st"
    let ?st0 = "st\<lparr>bd_disjuncts_used := Suc ?n, bd_left := None, bd_right := None,
                  bd_jet := (\<lambda>idir. Dis_field), bd_is_tracon := (\<lambda>idir. False)\<rparr>"
    let ?st1 = "build_chains (cl_c cl) ?st0"
    let ?ndis = "(p_fresh_disjunct par ?n)\<lparr>d_left := bd_left ?st1, d_right := bd_right ?st1\<rparr>"
    from Cons.prems(1) False obtain d where
      f: "finish_disjunct par cl ?n ?ndis = Inr d"
      and r: "build_disjunct par rest (d # dis) ?st1 = Inr (dis', st')"
      by (auto simp: Let_def split: sum.splits)
    from Cons.prems(2) have b: "n0 \<le> ?u"
      and tr: "tracons_ok T n0 ?u {} lab ?h ?u (bd_tracon st)"
      and old: "\<forall>d\<in>set dis. chain_in ?h lab n0 ?u False (d_left d) \<and> chain_in ?h lab n0 ?u True (d_right d)"
      unfolding disjuncts_inv_def by simp_all
    have i0: "chains_inv T n0 ?u {} lab ?st0"
      unfolding chains_inv_def using b tr by (simp add: jet_ok_def bd_head_def)
    have c: "set (cl_c cl) \<subseteq> T" "distinct (map t_addr (cl_c cl))" "t_addr ` set (cl_c cl) \<inter> {} = {}"
      using Cons.prems(3) by simp_all
    from build_chains_inv [OF i0 c(1) coh tn c(2,3)] obtain lab1 pre1 where
      1: "\<forall>a<?u. lab1 a = lab a" "chains_inv T n0 ?u pre1 lab1 ?st1"
      "\<forall>a<?u. bd_connectors ?st1 a = ?h a" "?u \<le> bd_connectors_used ?st1"
      by auto
    let ?h1 = "bd_connectors ?st1" and ?u1 = "bd_connectors_used ?st1"
    from 1(2) have tr1: "tracons_ok T n0 ?u pre1 lab1 ?h1 ?u1 (bd_tracon ?st1)"
      and jets: "\<forall>d. jet_ok n0 ?u lab1 ?h1 ?u1 d (bd_is_tracon ?st1 d) (bd_jet ?st1 d) (bd_head ?st1 d)"
      unfolding chains_inv_def by simp_all
    have fr: "\<forall>a. n0 \<le> a \<and> a < ?u \<longrightarrow> c_next (?h1 a) = c_next (?h a) \<and> lab1 a = lab a"
      using 1(1,3) by simp
    have gl: "chain_in ?h1 lab1 n0 ?u1 False (bd_head ?st1 False)"
      using jet_ok_chain_in [OF jets [rule_format, of False] b] .
    have gr: "chain_in ?h1 lab1 n0 ?u1 True (bd_head ?st1 True)"
      using jet_ok_chain_in [OF jets [rule_format, of True] b] .
    have dd: "d_left d = bd_left ?st1" "d_right d = bd_right ?st1"
      using finish_disjunct_chains [OF f] by simp_all
    have new: "chain_in ?h1 lab1 n0 ?u1 False (d_left d) \<and> chain_in ?h1 lab1 n0 ?u1 True (d_right d)"
      using gl gr dd by (simp add: bd_head_def)
    have old1: "\<forall>d\<in>set dis. chain_in ?h1 lab1 n0 ?u1 False (d_left d) \<and>
        chain_in ?h1 lab1 n0 ?u1 True (d_right d)"
    proof
      fix x assume "x \<in> set dis"
      then have g: "chain_in ?h lab n0 ?u False (d_left x)" "chain_in ?h lab n0 ?u True (d_right x)"
        using old by blast+
      show "chain_in ?h1 lab1 n0 ?u1 False (d_left x) \<and> chain_in ?h1 lab1 n0 ?u1 True (d_right x)"
        using chain_in_frame [OF g(1) fr 1(4)] chain_in_frame [OF g(2) fr 1(4)] by simp
    qed
    have i1: "disjuncts_inv T n0 lab1 ?st1 (d # dis)"
      unfolding disjuncts_inv_def
      using b 1(4) tracons_ok_close [OF tr1 1(4)] new old1 by simp
    from Cons.IH [OF r i1 rest] obtain lab2 where
      2: "\<forall>a<?u1. lab2 a = lab1 a" "disjuncts_inv T n0 lab2 st' dis'"
      "\<forall>a<?u1. bd_connectors st' a = ?h1 a" "?u1 \<le> bd_connectors_used st'" by blast
    have "\<forall>a<?u. lab2 a = lab a" using 1(1,4) 2(1) by auto
    moreover have "\<forall>a<?u. bd_connectors st' a = ?h a" using 1(3,4) 2(3) by auto
    moreover have "?u \<le> bd_connectors_used st'" using 1(4) 2(4) by simp
    ultimately show ?thesis using 2(2) by blast
  qed
qed

lemma trim_disjuncts_subset:
  "set (fst (trim_disjuncts rand_r discnt maxdj ds rst)) \<subseteq> set ds"
  by (induction ds arbitrary: rst) (auto simp: Let_def case_prod_unfold)

lemma chain_in_owned: "chain_in h lab lo hi d c \<Longrightarrow> owned h (\<lambda>a. (w, lab a)) (w, d) c"
  unfolding chain_in_def owned_def by (auto simp: list_all_iff)

lemma build_disjuncts_for_exp_chains:
  assumes "build_disjuncts_for_exp rand_r max_disjuncts par e sent = Inr (e', dis, sent1)"
  shows "\<exists>lab. (\<forall>d\<in>set dis.
           chain_in (sent_connectors sent1) lab (sent_connectors_used sent) (sent_connectors_used sent1)
             False (d_left d) \<and>
           chain_in (sent_connectors sent1) lab (sent_connectors_used sent) (sent_connectors_used sent1)
             True (d_right d)) \<and>
         (\<forall>a < sent_connectors_used sent. sent_connectors sent1 a = sent_connectors sent a) \<and>
         sent_connectors_used sent \<le> sent_connectors_used sent1"
proof -
  let ?ct = "\<lparr>Tconnector_pool = 0, cost_cutoff = p_cost_cutoff par, exp_pos = 0\<rparr>"
  let ?st = "\<lparr>bd_connectors = sent_connectors sent,
              bd_connectors_used = sent_connectors_used sent,
              bd_disjuncts_used = sent_disjuncts_used sent,
              bd_tracon = (\<lambda>a. None), bd_left = None, bd_right = None,
              bd_jet = (\<lambda>idir. Dis_field), bd_is_tracon = (\<lambda>idir. False)\<rparr>"
  from assms obtain e0 c ct where bc: "build_clause e ?ct = Inr (e0, c, ct)"
    by (auto simp: build_disjuncts_for_exp_def split: sum.splits)
  from assms bc obtain dis0 st where bd: "build_disjunct par c [] ?st = Inr (dis0, st)"
    by (auto simp: build_disjuncts_for_exp_def split: sum.splits)
  have res: "set dis \<subseteq> set dis0 \<and> sent_connectors sent1 = bd_connectors st \<and>
      sent_connectors_used sent1 = bd_connectors_used st"
  proof (cases "max_disjuncts = 0 \<or> length dis0 < max_disjuncts")
    case True
    then show ?thesis using assms bc bd
      by (auto simp: build_disjuncts_for_exp_def Let_def split: if_splits)
  next
    case False
    show ?thesis
    proof (cases dis0)
      case Nil
      then show ?thesis using assms bc bd False
        by (auto simp: build_disjuncts_for_exp_def Let_def split: if_splits)
    next
      case (Cons d rest)
      obtain kept rst where k: "trim_disjuncts rand_r (length dis0) max_disjuncts rest
          (sent_rand_state sent) = (kept, rst)" by fastforce
      have "set kept \<subseteq> set rest"
        using trim_disjuncts_subset [of rand_r "length dis0" max_disjuncts rest "sent_rand_state sent"] k
        by simp
      then show ?thesis using assms bc bd False Cons k
        by (auto simp: build_disjuncts_for_exp_def Let_def split: if_splits)
    qed
  qed
  let ?T = "\<Union>cl\<in>set c. set (cl_c cl)"
  have ok: "cells_ok (Tconnector_pool ?ct) (Tconnector_pool ct) (set c)"
    using build_clause_cells [OF bc] .
  have cls: "\<forall>cl\<in>set c. set (cl_c cl) \<subseteq> ?T \<and> distinct (map t_addr (cl_c cl))"
    using cells_ok_distinct [OF ok] by blast
  have coh: "\<forall>t\<in>?T. \<forall>t'\<in>?T. t_addr t = t_addr t' \<longrightarrow> idir_of t = idir_of t'"
  proof (intro ballI impI)
    fix t t' assume a: "t \<in> ?T" "t' \<in> ?T" "t_addr t = t_addr t'"
    then obtain cl cl' where "cl \<in> set c" "t \<in> set (cl_c cl)" "cl' \<in> set c" "t' \<in> set (cl_c cl')"
      by blast
    from cells_ok_same [OF ok this(1,3,2,4) a(3)] show "idir_of t = idir_of t'"
      by (simp add: idir_of_def)
  qed
  have tn: "\<forall>t\<in>?T. t_tracon t = None" using cells_ok_cell [OF ok] by blast
  have i0: "disjuncts_inv ?T (sent_connectors_used sent) (\<lambda>a. False) ?st []"
    by (simp add: disjuncts_inv_def tracons_ok_def)
  from build_disjunct_inv [OF bd i0 cls coh tn] obtain lab where
    l: "disjuncts_inv ?T (sent_connectors_used sent) lab st dis0"
    "\<forall>a < sent_connectors_used sent. bd_connectors st a = sent_connectors sent a"
    "sent_connectors_used sent \<le> bd_connectors_used st" by auto
  have "\<forall>d\<in>set dis0. chain_in (bd_connectors st) lab (sent_connectors_used sent) (bd_connectors_used st)
             False (d_left d) \<and>
           chain_in (bd_connectors st) lab (sent_connectors_used sent) (bd_connectors_used st)
             True (d_right d)"
    using l(1) unfolding disjuncts_inv_def by blast
  then show ?thesis using res l(2,3) by (intro exI [of _ lab]) auto
qed

lemma build_disjuncts_for_exp_wf_word:
  assumes "build_disjuncts_for_exp rand_r max_disjuncts par e sent = Inr (e', dis, sent1)"
  shows "\<exists>own. wf_word (sent_connectors sent1) own w dis"
proof -
  from build_disjuncts_for_exp_chains [OF assms] obtain lab where
    "\<forall>d\<in>set dis.
           chain_in (sent_connectors sent1) lab (sent_connectors_used sent) (sent_connectors_used sent1)
             False (d_left d) \<and>
           chain_in (sent_connectors sent1) lab (sent_connectors_used sent) (sent_connectors_used sent1)
             True (d_right d)" by blast
  then have "wf_word (sent_connectors sent1) (\<lambda>a. (w, lab a)) w dis"
    unfolding wf_word_def list_all_iff using chain_in_owned by blast
  then show ?thesis by blast
qed

lemma sentence_of_word_wf:
  assumes "sentence_of_word w len e = Some sent"
  shows "\<exists>own. wf_sent own sent"
proof -
  from assms obtain e' dis sent1 where
    b: "build_disjuncts_for_exp (\<lambda>rst. (rst, rst)) 0 sample_params (Some e) empty_sentence
          = Inr (e', dis, sent1)"
    and s: "sent = sent1\<lparr>sent_word_d := (replicate len [])[w := dis]\<rparr>"
    by (auto simp: sentence_of_word_def split: sum.splits)
  from build_disjuncts_for_exp_wf_word [OF b, of w] obtain own where
    o: "wf_word (sent_connectors sent1) own w dis" by blast
  have "wf_word (sent_connectors sent) own i (sent_word_d sent ! i)" if "i < len" for i
  proof (cases "i = w")
    case True
    then show ?thesis using o s that by simp
  next
    case False
    then show ?thesis using s that by (simp add: wf_word_def)
  qed
  then have "wf_sent own sent"
    unfolding wf_sent_def list_all_length using s by simp
  then show ?thesis by blast
qed

section \<open>The tracon set: equal chains and slots\<close>

lemma chain_Some: "chain h (Some c) xs \<Longrightarrow> \<exists>xs'. xs = c # xs' \<and> chain h (c_next (h c)) xs'"
  by (cases xs) auto

lemma connector_list_equal_chain:
  "chain h c1 xs \<Longrightarrow> chain h c2 ys \<Longrightarrow>
   connector_list_equal h c1 c2 = Some (list_all2 (connector_equal h) xs ys)"
proof (induction xs arbitrary: c1 c2 ys)
  case Nil
  then show ?case by (cases ys) (simp_all add: connector_list_equal.simps)
next
  case (Cons a as)
  show ?case
  proof (cases ys)
    case Nil
    then show ?thesis using Cons.prems by (simp add: connector_list_equal.simps)
  next
    case (Cons b bs)
    have "connector_list_equal h (c_next (h a)) (c_next (h b))
            = Some (list_all2 (connector_equal h) as bs)"
      using Cons.IH [of "c_next (h a)" "c_next (h b)" bs] Cons.prems Cons by simp
    then show ?thesis using Cons.prems Cons
      by (subst connector_list_equal.simps) simp
  qed
qed

lemma hash_loop_cong:
  "chain h c1 xs \<Longrightarrow> chain h c2 ys \<Longrightarrow> list_all2 (connector_equal h) xs ys \<Longrightarrow>
   \<exists>r. hash_loop env h k c1 acc = Some r \<and> hash_loop env h k c2 acc = Some r"
proof (induction xs arbitrary: c1 c2 ys acc)
  case Nil
  then show ?case by (simp add: hash_loop.simps)
next
  case (Cons a as)
  from Cons.prems(3) obtain b bs where ys: "ys = b # bs" and e: "connector_equal h a b"
    and r: "list_all2 (connector_equal h) as bs" by (cases ys) auto
  have c1: "c1 = Some a" "chain h (c_next (h a)) as" using Cons.prems(1) by simp_all
  have c2: "c2 = Some b" "chain h (c_next (h b)) bs" using Cons.prems(2) ys by simp_all
  let ?acc = "k * acc + push_bit 18 (uc_num env (c_desc (h a)))
               + push_bit 31 (of_bool (c_multi (h a))) + lc_letters env (c_desc (h a))"
  from Cons.IH [OF c1(2) c2(2) r, of ?acc] obtain r where
    "hash_loop env h k (c_next (h a)) ?acc = Some r" "hash_loop env h k (c_next (h b)) ?acc = Some r"
    by blast
  moreover have "hash_loop env h k (Some a) acc = hash_loop env h k (c_next (h a)) ?acc"
    by (subst hash_loop.simps) simp
  moreover have "hash_loop env h k (Some b) acc = hash_loop env h k (c_next (h b)) ?acc"
    using e by (subst hash_loop.simps) (simp add: connector_equal_def)
  ultimately show ?case using c1(1) c2(1) by simp
qed

lemma connector_equal_refl: "list_all2 (connector_equal h) xs xs"
  by (simp add: list_all2_refl connector_equal_def)

lemma connector_equal_sym:
  "list_all2 (connector_equal h) xs ys \<Longrightarrow> list_all2 (connector_equal h) ys xs"
  by (simp add: list_all2_conv_all_nth connector_equal_def)

lemma connector_equal_trans:
  "list_all2 (connector_equal h) xs ys \<Longrightarrow> list_all2 (connector_equal h) ys zs \<Longrightarrow>
   list_all2 (connector_equal h) xs zs"
  by (simp add: list_all2_conv_all_nth connector_equal_def)

lemma same_tracon_iff:
  "same_tracon h sh xs ys \<longleftrightarrow>
     list_all2 (connector_equal h) xs ys \<and> (sh \<longrightarrow> c_shallow (h (hd xs)) = c_shallow (h (hd ys)))"
proof -
  have "connector_equal h = (\<lambda>a b. c_desc (h a) = c_desc (h b) \<and> c_multi (h a) = c_multi (h b))"
    by (intro ext) (simp add: connector_equal_def)
  then show ?thesis by (auto simp: same_tracon_def list_all2_lengthD)
qed

lemma place_found_empty: "slot_clist slot = None \<Longrightarrow> place_found h c slot hash ss = Some True"
  by (simp add: place_found_def)

lemma place_found_chain:
  assumes "chain h (Some c) xs" and "slot_clist slot = Some d" and "chain h (Some d) zs"
  shows "place_found h c slot hash ss =
     Some (hash = slot_hash slot \<and> list_all2 (connector_equal h) zs xs \<and>
           (ts_shallow ss \<longrightarrow> c_shallow (h d) = c_shallow (h c)))"
  using connector_list_equal_chain [OF assms(3) assms(1)] assms(2)
  by (auto simp: place_found_def)


lemma hash_connectors_returns:
  "chain h (Some c) xs \<Longrightarrow> \<exists>r. hash_connectors env h k c sh = Some r"
  using hash_loop_cong [OF _ _ connector_equal_refl, of h "Some c" xs "Some c" env k]
  unfolding hash_connectors_def by blast


text \<open>Two chains accepted by one filled slot are equal.\<close>

lemma place_found_same:
  assumes c1: "chain h (Some c1) xs" and c2: "chain h (Some c2) ys"
    and d: "slot_clist slot = Some d" "chain h (Some d) zs"
    and f1: "place_found h c1 slot hash1 ss = Some True"
    and f2: "place_found h c2 slot hash2 ss = Some True"
  shows "same_tracon h (ts_shallow ss) xs ys"
proof -
  from chain_Some [OF c1] chain_Some [OF c2] have hd: "hd xs = c1" "hd ys = c2" by auto
  have a: "list_all2 (connector_equal h) zs xs" "ts_shallow ss \<longrightarrow> c_shallow (h d) = c_shallow (h c1)"
    using f1 place_found_chain [OF c1 d] by auto
  have b: "list_all2 (connector_equal h) zs ys"
    "ts_shallow ss \<longrightarrow> c_shallow (h d) = c_shallow (h c2)"
    using f2 place_found_chain [OF c2 d] by auto
  have "list_all2 (connector_equal h) xs ys"
    using connector_equal_trans [OF connector_equal_sym [OF a(1)] b(1)] .
  moreover have "ts_shallow ss \<longrightarrow> c_shallow (h (hd xs)) = c_shallow (h (hd ys))"
    using a(2) b(2) hd by simp
  ultimately show ?thesis by (simp add: same_tracon_iff)
qed




































end
